theory Spec2Isabelle
  imports Main "HOL-Library.Sublist"
begin

section \<open>Data model of get\_fasta.py\<close>

text \<open>
  The reader yields pairs \<open>(header, lines)\<close>, one per FASTA block, in stream order.
  A scan pulls blocks from the reader one at a time; the model takes the blocks still to
  come as a list and returns, next to the boolean of \<open>scan\<close>, the sequence of calls
  \<open>writer.write(header, lines)\<close> it made and the blocks it never pulled.
\<close>

type_synonym block = "string \<times> string list"

type_synonym matcher = "string \<Rightarrow> bool"

record outcome =
  written :: "block list"
  unread :: "block list"
  result :: bool

section \<open>Errors\<close>

text \<open>
  \<open>vfork.util.exit\<close> reports a message and ends the process with a failure status.
  The model keeps the format string of the call site and the values formatted into it.
  A pattern that \<open>re.compile\<close> refuses raises \<open>re.error\<close>, which nothing in the
  program catches.
\<close>

datatype arg = Str string | Num int

datatype error =
    Exit string "arg list"
  | InvalidPattern
  | OutsideFragment

section \<open>Matchers\<close>

text \<open>
  The module \<open>re\<close> is not part of the program: \<open>re.compile\<close> and the
  \<open>search\<close> method of a compiled pattern are parameters of the model
  (\<open>search\<close> here already answers whether a match object came back).
\<close>

record 'r re_module =
  re_compile :: "string \<Rightarrow> error + 'r"
  re_search :: "'r \<Rightarrow> string \<Rightarrow> bool"

definition identity_filter :: "matcher \<Rightarrow> matcher" where
  "identity_filter m = m"

text \<open>
  \<open>sep_rx.search(value)\<close> for the fixed pattern \<open>sep_rx = re.compile(r'[ \t]')\<close>,
  written out: the position \<open>match.start()\<close> of the first space or tab of
  \<open>value\<close>, or \<open>None\<close> when it has neither.
\<close>

fun sep_rx_search :: "string \<Rightarrow> nat option" where
  "sep_rx_search [] = None"
| "sep_rx_search (c # cs) =
     (if c = CHR '' '' \<or> c = CHR 0x09 then Some 0 else map_option Suc (sep_rx_search cs))"

definition id_filter :: "matcher \<Rightarrow> matcher" where
  "id_filter m = (\<lambda>value.
     case sep_rx_search value of
       Some start \<Rightarrow> m (take start value)
     | None \<Rightarrow> m value)"

definition ExactMatch :: "string \<Rightarrow> matcher" where
  "ExactMatch text = (\<lambda>value. text = value)"

definition RegularExpressionMatch :: "'r re_module \<Rightarrow> string \<Rightarrow> error + matcher" where
  "RegularExpressionMatch re rx =
     (case re_compile re rx of
        Inl e \<Rightarrow> Inl e
      | Inr compiled \<Rightarrow> Inr (\<lambda>value. re_search re compiled value))"

definition WordRegularExpressionMatch :: "'r re_module \<Rightarrow> string \<Rightarrow> error + matcher" where
  "WordRegularExpressionMatch re rx =
     RegularExpressionMatch re (''(^|'' @ [CHR 0x5C] @ ''W)'' @ rx @ ''('' @ [CHR 0x5C] @ ''W|$)'')"

section \<open>SingleLabelSearch\<close>

text \<open>
  \<^verbatim>\<open>found = False
for header, lines in reader:
    if self.match(header):
        self.writer.write(header, lines); found = True
        if not self.reuse_match: break
return found\<close>
\<close>

fun SingleLabelSearch_loop ::
  "matcher \<Rightarrow> bool \<Rightarrow> block list \<Rightarrow> bool \<Rightarrow> block list \<Rightarrow> outcome" where
  "SingleLabelSearch_loop match reuse_match [] found out =
     \<lparr>written = out, unread = [], result = found\<rparr>"
| "SingleLabelSearch_loop match reuse_match ((header, lines) # reader) found out =
     (if match header then
        (if \<not> reuse_match
         then \<lparr>written = out @ [(header, lines)], unread = reader, result = True\<rparr>
         else SingleLabelSearch_loop match reuse_match reader True (out @ [(header, lines)]))
      else SingleLabelSearch_loop match reuse_match reader found out)"

definition SingleLabelSearch_scan :: "matcher \<Rightarrow> bool \<Rightarrow> block list \<Rightarrow> outcome" where
  "SingleLabelSearch_scan match reuse_match reader =
     SingleLabelSearch_loop match reuse_match reader False []"

section \<open>MultipleLabelSearch\<close>

text \<open>
  The inner loop \<open>for idx, match in enumerate(self.matches)\<close> runs until the first
  matcher that accepts the header and is left there; \<open>first_match\<close> returns the index
  at which that happens.
\<close>

fun first_match :: "(nat \<times> matcher) list \<Rightarrow> string \<Rightarrow> nat option" where
  "first_match [] header = None"
| "first_match ((idx, match) # ms) header =
     (if match header then Some idx else first_match ms header)"

definition del :: "nat \<Rightarrow> 'a list \<Rightarrow> 'a list" where
  "del idx xs = take idx xs @ drop (Suc idx) xs"

fun MultipleLabelSearch_loop ::
  "bool \<Rightarrow> block list \<Rightarrow> matcher list \<Rightarrow> bool list \<Rightarrow> block list \<Rightarrow> outcome" where
  "MultipleLabelSearch_loop reuse_matches [] matches found out =
     \<lparr>written = out, unread = [], result = list_all (\<lambda>f. f) found\<rparr>"
| "MultipleLabelSearch_loop reuse_matches ((header, lines) # reader) matches found out =
     (case first_match (enumerate 0 matches) header of
        None \<Rightarrow>
          (if length matches = 0
           then \<lparr>written = out, unread = reader, result = list_all (\<lambda>f. f) found\<rparr>
           else MultipleLabelSearch_loop reuse_matches reader matches found out)
      | Some idx \<Rightarrow>
          (let out' = out @ [(header, lines)];
               matches' = (if reuse_matches then matches else del idx matches);
               found' = (if reuse_matches then found[idx := True] else del idx found)
           in if length matches' = 0
              then \<lparr>written = out', unread = reader, result = list_all (\<lambda>f. f) found'\<rparr>
              else MultipleLabelSearch_loop reuse_matches reader matches' found' out'))"

definition MultipleLabelSearch_scan :: "matcher list \<Rightarrow> bool \<Rightarrow> block list \<Rightarrow> outcome" where
  "MultipleLabelSearch_scan matches reuse_matches reader =
     MultipleLabelSearch_loop reuse_matches reader matches (replicate (length matches) False) []"

section \<open>IndexSearch\<close>

text \<open>
  \<^verbatim>\<open>pos = 0
for header, lines in reader:
    if pos == self.idx: self.writer.write(header, lines); break
    else: pos += 1
else: return False
return True\<close>
\<close>

fun IndexSearch_loop :: "int \<Rightarrow> block list \<Rightarrow> int \<Rightarrow> block list \<Rightarrow> outcome" where
  "IndexSearch_loop idx [] pos out = \<lparr>written = out, unread = [], result = False\<rparr>"
| "IndexSearch_loop idx ((header, lines) # reader) pos out =
     (if pos = idx
      then \<lparr>written = out @ [(header, lines)], unread = reader, result = True\<rparr>
      else IndexSearch_loop idx reader (pos + 1) out)"

definition IndexSearch_scan :: "int \<Rightarrow> block list \<Rightarrow> outcome" where
  "IndexSearch_scan idx reader = IndexSearch_loop idx reader 0 []"

section \<open>RangeSearch\<close>

text \<open>
  \<^verbatim>\<open>pos = -1
for header, lines in reader:
    pos += 1
    if self.stop is not None and pos >= self.stop: break
    elif self.start is None or pos >= self.start: self.writer.write(header, lines)
else:
    if self.start is not None and pos < self.start: return False
    elif self.stop is not None and pos < self.stop-1: return False
    else: return True
return True\<close>
\<close>

fun RangeSearch_loop ::
  "int option \<Rightarrow> int option \<Rightarrow> block list \<Rightarrow> int \<Rightarrow> block list \<Rightarrow> outcome" where
  "RangeSearch_loop start stop [] pos out =
     \<lparr>written = out, unread = [],
      result =
        (if start \<noteq> None \<and> pos < the start then False
         else if stop \<noteq> None \<and> pos < the stop - 1 then False
         else True)\<rparr>"
| "RangeSearch_loop start stop ((header, lines) # reader) pos out =
     (let pos = pos + 1 in
      if stop \<noteq> None \<and> pos \<ge> the stop
      then \<lparr>written = out, unread = reader, result = True\<rparr>
      else if start = None \<or> pos \<ge> the start
      then RangeSearch_loop start stop reader pos (out @ [(header, lines)])
      else RangeSearch_loop start stop reader pos out)"

definition RangeSearch_scan :: "int option \<Rightarrow> int option \<Rightarrow> block list \<Rightarrow> outcome" where
  "RangeSearch_scan start stop reader = RangeSearch_loop start stop reader (- 1) []"

section \<open>FastaWriter\<close>

text \<open>The text that one call \<open>write(header, lines)\<close> sends to \<open>stdout\<close>.\<close>

definition FastaWriter_write :: "bool \<Rightarrow> string \<Rightarrow> string list \<Rightarrow> string" where
  "FastaWriter_write print_headers header lines =
     (if print_headers then ''>'' @ header @ [CHR 0x0A] else []) @
     concat (map (\<lambda>line. line @ [CHR 0x0A]) lines)"

section \<open>The argument grammar\<close>

definition is_range :: "string \<Rightarrow> bool" where
  "is_range value = (case value of [] \<Rightarrow> False | c # cs \<Rightarrow> c = CHR ''@'')"

text \<open>
  Python's built-in \<open>int(s)\<close> on a string, base ten: blanks around the number are
  dropped, one sign is allowed, at least one digit must follow and nothing else;
  \<open>None\<close> stands for the \<open>ValueError\<close>.
\<close>

definition is_digit :: "char \<Rightarrow> bool" where
  "is_digit c = (let n = (of_char c :: nat) in 48 \<le> n \<and> n \<le> 57)"

definition is_space :: "char \<Rightarrow> bool" where
  "is_space c = (c \<in> set [CHR '' '', CHR 0x09, CHR 0x0A, CHR 0x0B, CHR 0x0C, CHR 0x0D])"

definition digits_value :: "string \<Rightarrow> int" where
  "digits_value ds = foldl (\<lambda>a c. 10 * a + (int (of_char c) - 48)) 0 ds"

definition py_int :: "string \<Rightarrow> int option" where
  "py_int s =
     (let t = rev (dropWhile is_space (rev (dropWhile is_space s)));
          unsigned = (\<lambda>ds. if ds \<noteq> [] \<and> list_all is_digit ds then Some (digits_value ds) else None)
      in case t of
           [] \<Rightarrow> None
         | c # cs \<Rightarrow>
             if c = CHR ''-'' then map_option uminus (unsigned cs)
             else if c = CHR ''+'' then unsigned cs
             else unsigned t)"

text \<open>\<open>value.find(':')\<close>, with \<open>None\<close> for the answer \<open>-1\<close>.\<close>

fun find_colon :: "string \<Rightarrow> nat option" where
  "find_colon [] = None"
| "find_colon (c # cs) = (if c = CHR '':'' then Some 0 else map_option Suc (find_colon cs))"

datatype range_spec = Idx int | Range "int option" "int option"

text \<open>
  \<open>parse_range\<close>. In the test \<open>stop <= start\<close> the start may be \<open>None\<close>; Python 2
  orders \<open>None\<close> below every number, so the test is false then.
\<close>

definition parse_range :: "string \<Rightarrow> error + range_spec" where
  "parse_range value0 =
     (let value = drop 1 value0 in
      case find_colon value of
        None \<Rightarrow>
          (case py_int value of
             None \<Rightarrow> Inl (Exit ''Invalid index: %s'' [Str value])
           | Some idx \<Rightarrow>
               if idx < 0 then Inl (Exit ''Invalid index: %s'' [Str value])
               else Inr (Idx idx))
      | Some idx \<Rightarrow>
          (let start_text = take idx value;
               stop_text = drop (idx + 1) value;
               start =
                 (if length start_text = 0 then Inr None
                  else case py_int start_text of
                         None \<Rightarrow> Inl (Exit ''Invalid start index: %s'' [Str start_text])
                       | Some s \<Rightarrow>
                           if s < 0 then Inl (Exit ''Invalid start index: %s'' [Num s])
                           else Inr (Some s))
           in case start of
                Inl e \<Rightarrow> Inl e
              | Inr start \<Rightarrow>
                  if length stop_text = 0 then Inr (Range start None)
                  else case py_int stop_text of
                         None \<Rightarrow> Inl (Exit ''Invalid stop index: %s'' [Str stop_text])
                       | Some stop \<Rightarrow>
                           if (case start of None \<Rightarrow> False | Some s \<Rightarrow> stop \<le> s)
                           then Inl (Exit ''Invalid stop index: %s'' [Str stop_text])
                           else Inr (Range start (Some stop))))"

section \<open>Labels from a file\<close>

text \<open>
  \<open>safe_rstrip\<close> (of \<open>vfork.io.util\<close>) is not part of the program and is a parameter.
  The file system maps a name to the lines the file object yields, or to \<open>None\<close> when
  reading raises \<open>IOError\<close>. The Python set \<open>labels\<close> is kept as the list of its
  members, each once; the list is a representation of the set and says nothing about the
  order in which the set is iterated later (see \<open>set_order\<close> below).
\<close>

fun load_labels_loop ::
  "(string \<Rightarrow> string) \<Rightarrow> string \<Rightarrow> string list \<Rightarrow> string list \<Rightarrow> error + string list" where
  "load_labels_loop safe_rstrip filename [] labels = Inr labels"
| "load_labels_loop safe_rstrip filename (line # fd) labels =
     (let label = safe_rstrip line in
      if label \<in> set labels
      then Inl (Exit ''Duplicated label '%s' in file %s'' [Str label, Str filename])
      else load_labels_loop safe_rstrip filename fd (labels @ [label]))"

definition load_labels ::
  "(string \<Rightarrow> string) \<Rightarrow> (string \<Rightarrow> string list option) \<Rightarrow> string \<Rightarrow> error + string list" where
  "load_labels safe_rstrip files filename =
     (case files filename of
        None \<Rightarrow> Inl (Exit ''Error reading from file %s'' [Str filename])
      | Some fd \<Rightarrow>
          (case load_labels_loop safe_rstrip filename fd [] of
             Inl e \<Rightarrow> Inl e
           | Inr labels \<Rightarrow>
               if length labels = 0 then Inl (Exit ''No label in file %s'' [Str filename])
               else Inr labels))"

section \<open>main\<close>

record options =
  id_only :: bool
  regexp :: bool
  word_regexp :: bool
  from_file :: bool
  no_headers :: bool
  ignore_missing :: bool
  read_all_input_file :: bool

text \<open>
  What the program takes from outside: the module \<open>re\<close>, \<open>safe_rstrip\<close>, the files,
  and the order in which iterating a Python set yields its members. The program does not
  fix that order; \<open>set_order\<close> maps the members (as \<open>load_labels\<close> lists them) to
  the sequence the iteration gives.
\<close>

record 'r env =
  re :: "'r re_module"
  safe_rstrip :: "string \<Rightarrow> string"
  files :: "string \<Rightarrow> string list option"
  set_order :: "string list \<Rightarrow> string list"

datatype search =
    SingleLabelSearch matcher bool
  | MultipleLabelSearch "matcher list" bool
  | IndexSearch int
  | RangeSearch "int option" "int option"

fun scan :: "search \<Rightarrow> block list \<Rightarrow> outcome" where
  "scan (SingleLabelSearch match reuse_match) reader = SingleLabelSearch_scan match reuse_match reader"
| "scan (MultipleLabelSearch matches reuse_matches) reader =
     MultipleLabelSearch_scan matches reuse_matches reader"
| "scan (IndexSearch idx) reader = IndexSearch_scan idx reader"
| "scan (RangeSearch start stop) reader = RangeSearch_scan start stop reader"

text \<open>
  The comprehension \<open>[ fc(mc(l)) for l in labels ]\<close>, over the labels in the order
  the iteration of the set gives them; \<open>mc\<close> may raise.
\<close>

fun build_matches ::
  "(string \<Rightarrow> error + matcher) \<Rightarrow> (matcher \<Rightarrow> matcher) \<Rightarrow> string list \<Rightarrow> error + matcher list" where
  "build_matches mc fc [] = Inr []"
| "build_matches mc fc (l # labels) =
     (case mc l of
        Inl e \<Rightarrow> Inl e
      | Inr m \<Rightarrow>
          (case build_matches mc fc labels of
             Inl e \<Rightarrow> Inl e
           | Inr ms \<Rightarrow> Inr (fc m # ms)))"

text \<open>Everything \<open>main\<close> does before the scan: the checks of the options and the choice of the search.\<close>

definition select_search :: "'r env \<Rightarrow> options \<Rightarrow> string list \<Rightarrow> error + search" where
  "select_search ev opts args =
     (if length args \<noteq> 1 then Inl (Exit ''Unexpected argument number.'' [])
      else if regexp opts \<and> word_regexp opts
      then Inl (Exit ''Cannot use --regexp and --word-regexp together.'' [])
      else if is_range (args ! 0) \<and> (regexp opts \<or> word_regexp opts)
      then Inl (Exit ''Cannot use --regexp or --word-regexp with indexes.'' [])
      else if is_range (args ! 0) then
        (case parse_range (args ! 0) of
           Inl e \<Rightarrow> Inl e
         | Inr (Idx idx) \<Rightarrow> Inr (IndexSearch idx)
         | Inr (Range start stop) \<Rightarrow> Inr (RangeSearch start stop))
      else
        (let (mc, reuse_match) =
               (if regexp opts then (RegularExpressionMatch (re ev), True)
                else if word_regexp opts then (WordRegularExpressionMatch (re ev), True)
                else (\<lambda>text. Inr (ExactMatch text), False));
             fc = (if id_only opts then id_filter else identity_filter)
         in if from_file opts then
              (case load_labels (safe_rstrip ev) (files ev) (args ! 0) of
                 Inl e \<Rightarrow> Inl e
               | Inr labels \<Rightarrow>
                   (case build_matches mc fc (set_order ev labels) of
                      Inl e \<Rightarrow> Inl e
                    | Inr ms \<Rightarrow> Inr (MultipleLabelSearch ms reuse_match)))
            else
              (case mc (args ! 0) of
                 Inl e \<Rightarrow> Inl e
               | Inr m \<Rightarrow> Inr (SingleLabelSearch (fc m) reuse_match))))"

text \<open>
  A run of \<open>main\<close>: what reached \<open>stdout\<close>, and the error that ended the process
  (\<open>None\<close> when \<open>main\<close> returned). Reading the rest of \<open>stdin\<close> under
  \<open>--read-all-input-file\<close> changes neither.
\<close>

record run =
  stdout :: string
  status :: "error option"

definition emit :: "bool \<Rightarrow> block list \<Rightarrow> string" where
  "emit print_headers blocks =
     concat (map (\<lambda>(header, lines). FastaWriter_write print_headers header lines) blocks)"

definition main :: "'r env \<Rightarrow> options \<Rightarrow> string list \<Rightarrow> block list \<Rightarrow> run" where
  "main ev opts args stdin =
     (case select_search ev opts args of
        Inl e \<Rightarrow> \<lparr>stdout = [], status = Some e\<rparr>
      | Inr s \<Rightarrow>
          (let r = scan s stdin;
               text = emit (\<not> no_headers opts) (written r)
           in if \<not> result r \<and> \<not> ignore_missing opts
              then \<lparr>stdout = text, status = Some (Exit ''Some FASTA blocks are missing.'' [])\<rparr>
              else \<lparr>stdout = text, status = None\<rparr>))"

section \<open>A fragment of Python's regular expressions\<close>

text \<open>
  Modelled from the spec: the module \<open>re\<close> of Python 2 is missing from the sources; the
  spec asks of a compiled pattern that it "finds a match anywhere in the label (search,
  not full-match)" and that construction fails when the pattern cannot compile, and
  reads \<open>\W\<close> as a non-word character. The rest follows the documentation of the
  module. This engine is used for concrete patterns only; the program above takes the
  engine as a parameter. The fragment covers literal characters, \<open>.\<close>, \<open>^\<close>, \<open>$\<close>, \<open>|\<close>, groups
  \<open>( )\<close>, the classes \<open>\w\<close> and \<open>\W\<close> (ASCII letters, digits and underscore, no
  flags) and a backslash before any other character that is not alphanumeric. A
  pattern using anything else is answered with \<open>OutsideFragment\<close>.
\<close>

datatype rx =
    Lit char
  | AnyChar
  | WordChar
  | NonWordChar
  | Bol
  | Eol
  | Eps
  | Cat rx rx
  | Alt rx rx

definition is_alpha :: "char \<Rightarrow> bool" where
  "is_alpha c = (let n = (of_char c :: nat) in (65 \<le> n \<and> n \<le> 90) \<or> (97 \<le> n \<and> n \<le> 122))"

definition is_word :: "char \<Rightarrow> bool" where
  "is_word c = (is_alpha c \<or> is_digit c \<or> c = CHR ''_'')"

type_synonym frame = "rx list \<times> rx list"

fun seq_rx :: "rx list \<Rightarrow> rx" where
  "seq_rx [] = Eps"
| "seq_rx (r # rs) = Cat r (seq_rx rs)"

fun alt_rx :: "rx list \<Rightarrow> rx \<Rightarrow> rx" where
  "alt_rx [] final = final"
| "alt_rx (r # rs) final = Alt r (alt_rx rs final)"

definition close_frame :: "frame \<Rightarrow> rx" where
  "close_frame fr = alt_rx (fst fr) (seq_rx (snd fr))"

text \<open>
  The parser reads the pattern from left to right. The current frame holds the finished
  branches of the innermost open group and the items of the branch being read; the
  stack holds the frames of the groups around it.
\<close>

fun parse :: "string \<Rightarrow> frame \<Rightarrow> frame list \<Rightarrow> error + rx" where
  "parse [] cur stack = (if stack = [] then Inr (close_frame cur) else Inl InvalidPattern)"
| "parse (c # cs) (alts, items) stack =
     (if c = CHR ''('' then parse cs ([], []) ((alts, items) # stack)
      else if c = CHR '')'' then
        (case stack of
           [] \<Rightarrow> Inl InvalidPattern
         | (alts', items') # stack' \<Rightarrow>
             parse cs (alts', items' @ [close_frame (alts, items)]) stack')
      else if c = CHR ''|'' then parse cs (alts @ [seq_rx items], []) stack
      else if c = CHR ''^'' then parse cs (alts, items @ [Bol]) stack
      else if c = CHR ''$'' then parse cs (alts, items @ [Eol]) stack
      else if c = CHR ''.'' then parse cs (alts, items @ [AnyChar]) stack
      else if c = CHR 0x5C then
        (case cs of
           [] \<Rightarrow> Inl InvalidPattern
         | d # ds \<Rightarrow>
             if d = CHR ''W'' then parse ds (alts, items @ [NonWordChar]) stack
             else if d = CHR ''w'' then parse ds (alts, items @ [WordChar]) stack
             else if is_alpha d \<or> is_digit d then Inl OutsideFragment
             else parse ds (alts, items @ [Lit d]) stack)
      else if c \<in> set ''*+?{['' then Inl OutsideFragment
      else parse cs (alts, items @ [Lit c]) stack)"

definition frag_compile :: "string \<Rightarrow> error + rx" where
  "frag_compile pattern = parse pattern ([], []) []"

text \<open>
  Matching works on pairs of a flag (is this the start of the string?) and the rest of
  the string; \<open>rx_step r st\<close> lists the states in which a match of \<open>r\<close> begun in
  \<open>st\<close> can end. \<open>$\<close> holds at the end and before a final newline.
\<close>

fun rx_step :: "rx \<Rightarrow> bool \<times> string \<Rightarrow> (bool \<times> string) list" where
  "rx_step (Lit c) (b, s) =
     (case s of [] \<Rightarrow> [] | x # xs \<Rightarrow> if x = c then [(False, xs)] else [])"
| "rx_step AnyChar (b, s) =
     (case s of [] \<Rightarrow> [] | x # xs \<Rightarrow> if x \<noteq> CHR 0x0A then [(False, xs)] else [])"
| "rx_step WordChar (b, s) =
     (case s of [] \<Rightarrow> [] | x # xs \<Rightarrow> if is_word x then [(False, xs)] else [])"
| "rx_step NonWordChar (b, s) =
     (case s of [] \<Rightarrow> [] | x # xs \<Rightarrow> if is_word x then [] else [(False, xs)])"
| "rx_step Bol (b, s) = (if b then [(b, s)] else [])"
| "rx_step Eol (b, s) = (if s = [] \<or> s = [CHR 0x0A] then [(b, s)] else [])"
| "rx_step Eps (b, s) = [(b, s)]"
| "rx_step (Cat r1 r2) st = concat (map (rx_step r2) (rx_step r1 st))"
| "rx_step (Alt r1 r2) st = rx_step r1 st @ rx_step r2 st"

fun search_from :: "rx \<Rightarrow> bool \<Rightarrow> string \<Rightarrow> bool" where
  "search_from r b [] = (rx_step r (b, []) \<noteq> [])"
| "search_from r b (x # xs) = (rx_step r (b, x # xs) \<noteq> [] \<or> search_from r False xs)"

definition frag_search :: "rx \<Rightarrow> string \<Rightarrow> bool" where
  "frag_search r value = search_from r True value"

definition py_re :: "rx re_module" where
  "py_re = \<lparr>re_compile = frag_compile, re_search = frag_search\<rparr>"

section \<open>A line stripper\<close>

text \<open>
  One function that \<open>safe_rstrip\<close> may be: it removes the line terminators (carriage
  return, line feed) at the end of a line. It is used for concrete inputs only.
\<close>

definition rstrip_newline :: "string \<Rightarrow> string" where
  "rstrip_newline line = rev (dropWhile (\<lambda>c. c = CHR 0x0A \<or> c = CHR 0x0D) (rev line))"

section \<open>Vocabulary of the properties\<close>

text \<open>
  The definitions of this section belong to the statements, not to the program.
  \<open>in_range\<close> is the range test on a position; \<open>exclusive\<close> says that no label is
  accepted by two matchers of a collection; \<open>truncate_label\<close> follows the words
  "truncated at the first space or tab character (the label unchanged if none occurs)".
  \<open>default_options\<close> is the state of the options when no flag is given, and
  \<open>example_env\<close> an environment with the regular expression fragment, in which a
  set is iterated in the order of insertion (concrete runs that depend on the order are
  stated for the reverse order too), used for concrete runs. \<open>plain\<close> patterns consist of characters that the fragment reads
  as literals; \<open>word_bounded p label\<close> says that \<open>p\<close> occurs in the label
  between word boundaries (the ends of the label, or a character outside
  \<open>[a-zA-Z0-9_]\<close>), \<open>boundary_after\<close> being the boundary on the right;
  \<open>wrapped p\<close> is the expression that the fragment compiles the wrapped pattern of a
  plain \<open>p\<close> to.
\<close>

definition in_range :: "int \<Rightarrow> int option \<Rightarrow> int \<Rightarrow> bool" where
  "in_range s stop p = (s \<le> p \<and> (case stop of None \<Rightarrow> True | Some t \<Rightarrow> p < t))"

definition exclusive :: "matcher list \<Rightarrow> bool" where
  "exclusive ms = (\<forall>h. length (filter (\<lambda>m. m h) ms) \<le> 1)"

definition truncate_label :: "string \<Rightarrow> string" where
  "truncate_label value = takeWhile (\<lambda>c. c \<noteq> CHR '' '' \<and> c \<noteq> CHR 0x09) value"

definition default_options :: options where
  "default_options = \<lparr>id_only = False, regexp = False, word_regexp = False, from_file = False,
     no_headers = False, ignore_missing = False, read_all_input_file = False\<rparr>"

definition example_env :: "(string \<Rightarrow> string list option) \<Rightarrow> rx env" where
  "example_env fs =
     \<lparr>re = py_re, safe_rstrip = rstrip_newline, files = fs, set_order = (\<lambda>labels. labels)\<rparr>"

definition plain :: "string \<Rightarrow> bool" where
  "plain p = (\<forall>c \<in> set p. c \<notin> set ''()|^$.*+?{['' \<and> c \<noteq> CHR 0x5C)"

definition word_bounded :: "string \<Rightarrow> string \<Rightarrow> bool" where
  "word_bounded p label =
     (\<exists>pre post. label = pre @ p @ post \<and>
        (pre = [] \<or> \<not> is_word (last pre)) \<and> (post = [] \<or> \<not> is_word (hd post)))"

definition boundary_after :: "string \<Rightarrow> bool" where
  "boundary_after post = (post = [] \<or> \<not> is_word (hd post))"

definition wrapped :: "string \<Rightarrow> rx" where
  "wrapped p =
     seq_rx ([Alt (Cat Bol Eps) (Cat NonWordChar Eps)] @ map Lit p @
             [Alt (Cat NonWordChar Eps) (Cat Eol Eps)])"

section \<open>Properties of IndexSearch\<close>

lemma IndexSearch_loop_hit:
  "pos \<le> idx \<Longrightarrow> nat (idx - pos) < length reader \<Longrightarrow>
   IndexSearch_loop idx reader pos out =
     \<lparr>written = out @ [reader ! nat (idx - pos)],
      unread = drop (Suc (nat (idx - pos))) reader, result = True\<rparr>"
proof (induction reader arbitrary: pos)
  case Nil
  then show ?case by simp
next
  case (Cons b reader)
  obtain header lines where b: "b = (header, lines)" by (cases b)
  show ?case
  proof (cases "pos = idx")
    case True
    then show ?thesis by (simp add: b)
  next
    case False
    with Cons.prems have lt: "pos + 1 \<le> idx" by simp
    then have step: "nat (idx - pos) = Suc (nat (idx - (pos + 1)))" by simp
    with Cons.prems have "nat (idx - (pos + 1)) < length reader" by simp
    from Cons.IH [OF lt this] False show ?thesis
      by (simp add: b step)
  qed
qed

lemma IndexSearch_loop_miss:
  "pos \<le> idx \<Longrightarrow> length reader \<le> nat (idx - pos) \<Longrightarrow>
   IndexSearch_loop idx reader pos out = \<lparr>written = out, unread = [], result = False\<rparr>"
proof (induction reader arbitrary: pos)
  case Nil
  then show ?case by simp
next
  case (Cons b reader)
  obtain header lines where b: "b = (header, lines)" by (cases b)
  from Cons.prems have ne: "pos \<noteq> idx" and lt: "pos + 1 \<le> idx" by auto
  from Cons.prems lt have "length reader \<le> nat (idx - (pos + 1))" by simp
  from Cons.IH [OF lt this] ne show ?case by (simp add: b)
qed

text \<open>
  Claim C4. For every stream and every non-negative index \<open>idx\<close>, Index Search writes
  exactly the block at zero-based position \<open>idx\<close>, stops right after it (the blocks
  behind it stay unread) and returns true; when the stream has no position \<open>idx\<close> it
  writes nothing and returns false.
\<close>

theorem IndexSearch_scan_correct:
  assumes "0 \<le> idx"
  shows "IndexSearch_scan idx reader =
     (if nat idx < length reader
      then \<lparr>written = [reader ! nat idx], unread = drop (Suc (nat idx)) reader, result = True\<rparr>
      else \<lparr>written = [], unread = [], result = False\<rparr>)"
proof (cases "nat idx < length reader")
  case True
  with assms IndexSearch_loop_hit [of 0 idx reader "[]"] show ?thesis
    by (simp add: IndexSearch_scan_def)
next
  case False
  with assms IndexSearch_loop_miss [of 0 idx reader "[]"] show ?thesis
    by (simp add: IndexSearch_scan_def)
qed

theorem IndexSearch_scan_correct_witness:
  "(0::int) \<le> 3 \<and>
   IndexSearch_scan 3 [(''a'', []), (''b'', []), (''c'', []), (''d'', [''ACGT'']), (''e'', [])] =
     \<lparr>written = [(''d'', [''ACGT''])], unread = [(''e'', [])], result = True\<rparr> \<and>
   IndexSearch_scan 10 [(''a'', []), (''b'', []), (''c'', []), (''d'', [''ACGT'']), (''e'', [])] =
     \<lparr>written = [], unread = [], result = False\<rparr>"
  using IndexSearch_scan_correct [of 3 "[(''a'', []), (''b'', []), (''c'', []), (''d'', [''ACGT'']), (''e'', [])]"]
    IndexSearch_scan_correct [of 10 "[(''a'', []), (''b'', []), (''c'', []), (''d'', [''ACGT'']), (''e'', [])]"]
  by (simp add: numeral_eq_Suc)

section \<open>Properties of SingleLabelSearch\<close>

lemma SingleLabelSearch_loop_reuse:
  "SingleLabelSearch_loop match True reader found out =
     \<lparr>written = out @ filter (\<lambda>b. match (fst b)) reader, unread = [],
      result = (found \<or> (\<exists>b \<in> set reader. match (fst b)))\<rparr>"
  by (induction reader arbitrary: found out) auto

lemma SingleLabelSearch_loop_once:
  "SingleLabelSearch_loop match False reader found out =
     \<lparr>written = out @ take 1 (filter (\<lambda>b. match (fst b)) reader),
      unread = drop 1 (dropWhile (\<lambda>b. \<not> match (fst b)) reader),
      result = (found \<or> (\<exists>b \<in> set reader. match (fst b)))\<rparr>"
  by (induction reader arbitrary: found out) auto

text \<open>
  Claim C3. Single-Label Search returns true iff the label of at least one block is
  accepted by the matcher, which is also when something was written. When
  \<open>reuse_match\<close> is false it writes the first accepted block only and pulls
  nothing after it; when \<open>reuse_match\<close> is true it writes every accepted block, in
  stream order.
\<close>

theorem SingleLabelSearch_scan_correct:
  "(result (SingleLabelSearch_scan match reuse_match reader) \<longleftrightarrow>
      (\<exists>b \<in> set reader. match (fst b))) \<and>
   (result (SingleLabelSearch_scan match reuse_match reader) \<longleftrightarrow>
      written (SingleLabelSearch_scan match reuse_match reader) \<noteq> []) \<and>
   (reuse_match \<longrightarrow>
      written (SingleLabelSearch_scan match reuse_match reader) =
        filter (\<lambda>b. match (fst b)) reader \<and>
      unread (SingleLabelSearch_scan match reuse_match reader) = []) \<and>
   (\<not> reuse_match \<longrightarrow>
      written (SingleLabelSearch_scan match reuse_match reader) =
        take 1 (filter (\<lambda>b. match (fst b)) reader) \<and>
      unread (SingleLabelSearch_scan match reuse_match reader) =
        drop 1 (dropWhile (\<lambda>b. \<not> match (fst b)) reader))"
proof (cases reuse_match)
  case True
  then show ?thesis
    by (simp add: SingleLabelSearch_scan_def SingleLabelSearch_loop_reuse filter_empty_conv)
next
  case False
  have "take 1 (filter (\<lambda>b. match (fst b)) reader) \<noteq> [] \<longleftrightarrow>
        (\<exists>b \<in> set reader. match (fst b))"
    by (simp add: filter_empty_conv)
  with False show ?thesis
    by (simp add: SingleLabelSearch_scan_def SingleLabelSearch_loop_once)
qed

theorem SingleLabelSearch_scan_correct_witness:
  "SingleLabelSearch_scan (ExactMatch ''b'') False
      [(''a'', [''AA'']), (''b'', [''CC'']), (''c'', []), (''b'', [''GG''])] =
     \<lparr>written = [(''b'', [''CC''])], unread = [(''c'', []), (''b'', [''GG''])], result = True\<rparr> \<and>
   SingleLabelSearch_scan (ExactMatch ''b'') True
      [(''a'', [''AA'']), (''b'', [''CC'']), (''c'', []), (''b'', [''GG''])] =
     \<lparr>written = [(''b'', [''CC'']), (''b'', [''GG''])], unread = [], result = True\<rparr> \<and>
   \<not> result (SingleLabelSearch_scan (ExactMatch ''z'') False
      [(''a'', [''AA'']), (''b'', [''CC'']), (''c'', []), (''b'', [''GG''])])"
  using SingleLabelSearch_scan_correct [of "ExactMatch ''b''" False
      "[(''a'', [''AA'']), (''b'', [''CC'']), (''c'', []), (''b'', [''GG''])]"]
    SingleLabelSearch_scan_correct [of "ExactMatch ''b''" True
      "[(''a'', [''AA'']), (''b'', [''CC'']), (''c'', []), (''b'', [''GG''])]"]
    SingleLabelSearch_scan_correct [of "ExactMatch ''z''" False
      "[(''a'', [''AA'']), (''b'', [''CC'']), (''c'', []), (''b'', [''GG''])]"]
  by (simp add: ExactMatch_def SingleLabelSearch_scan_def)

section \<open>Properties of RangeSearch\<close>

text \<open>
  The loop from any position: what it writes, what it returns and what it leaves unread.
\<close>

lemma RangeSearch_loop_written:
  "written (RangeSearch_loop (Some s) stop reader pos out) =
     out @ nths reader {p. in_range s stop (pos + 1 + int p)}"
proof (induction reader arbitrary: pos out)
  case Nil
  then show ?case by simp
next
  case (Cons b reader)
  obtain header lines where b: "b = (header, lines)" by (cases b)
  have shift: "{j. in_range s stop (pos + 1 + int (Suc j))} = {p. in_range s stop (pos + 1 + 1 + int p)}"
    by (simp add: ac_simps)
  note IH = Cons.IH [of "pos + 1"]
  show ?case
  proof (cases "in_range s stop (pos + 1)")
    case True
    then have "RangeSearch_loop (Some s) stop (b # reader) pos out =
               RangeSearch_loop (Some s) stop reader (pos + 1) (out @ [b])"
      by (auto simp: b Let_def in_range_def split: option.splits)
    with True show ?thesis
      by (simp add: nths_Cons IH shift del: of_nat_Suc)
  next
    case False
    show ?thesis
    proof (cases "s \<le> pos + 1")
      case True
      with False obtain t where t: "stop = Some t" "t \<le> pos + 1"
        by (auto simp: in_range_def split: option.splits)
      then have "{p. in_range s stop (pos + 1 + int p)} = {}"
        by (auto simp: in_range_def)
      with t show ?thesis by (simp add: b Let_def)
    next
      case no: False
      show ?thesis
      proof (cases "stop \<noteq> None \<and> the stop \<le> pos + 1")
        case True
        then have "{p. in_range s stop (pos + 1 + int p)} = {}"
          by (auto simp: in_range_def)
        with True show ?thesis by (simp add: b Let_def)
      next
        case nostop: False
        have "RangeSearch_loop (Some s) stop (b # reader) pos out =
              RangeSearch_loop (Some s) stop reader (pos + 1) out"
          using no nostop by (auto simp: b Let_def)
        with False show ?thesis
          by (simp add: nths_Cons IH shift del: of_nat_Suc)
      qed
    qed
  qed
qed

lemma RangeSearch_loop_result:
  "(case stop of None \<Rightarrow> True | Some t \<Rightarrow> pos < t) \<Longrightarrow>
   result (RangeSearch_loop (Some s) stop reader pos out) =
     (case stop of
        None \<Rightarrow> s \<le> pos + int (length reader)
      | Some t \<Rightarrow> t \<le> pos + int (length reader) \<or>
          (s \<le> pos + int (length reader) \<and> t - 1 \<le> pos + int (length reader)))"
proof (induction reader arbitrary: pos out)
  case Nil
  then show ?case by (auto split: option.splits)
next
  case (Cons b reader)
  obtain header lines where b: "b = (header, lines)" by (cases b)
  show ?case
  proof (cases "stop \<noteq> None \<and> pos + 1 \<ge> the stop")
    case True
    then show ?thesis by (auto simp: b Let_def)
  next
    case False
    then have "case stop of None \<Rightarrow> True | Some t \<Rightarrow> pos + 1 < t"
      by (auto split: option.splits)
    from Cons.IH [OF this] False show ?thesis
      by (auto simp: b Let_def ac_simps split: option.splits)
  qed
qed

lemma RangeSearch_loop_unread:
  "pos < t \<Longrightarrow>
   unread (RangeSearch_loop start (Some t) reader pos out) = drop (nat (t - pos)) reader"
proof (induction reader arbitrary: pos out)
  case Nil
  then show ?case by simp
next
  case (Cons b reader)
  obtain header lines where b: "b = (header, lines)" by (cases b)
  from Cons.prems have step: "nat (t - pos) = Suc (nat (t - (pos + 1)))" by simp
  show ?case
  proof (cases "pos + 1 \<ge> t")
    case True
    with Cons.prems have "t - (pos + 1) = 0" by simp
    with True show ?thesis by (simp add: b Let_def step)
  next
    case False
    then have "pos + 1 < t" by simp
    from Cons.IH [OF this] False show ?thesis
      by (simp add: b Let_def step)
  qed
qed

lemma RangeSearch_loop_unread_None:
  "unread (RangeSearch_loop start None reader pos out) = []"
proof (induction reader arbitrary: pos out)
  case Nil
  then show ?case by simp
next
  case (Cons b reader)
  obtain header lines where b: "b = (header, lines)" by (cases b)
  show ?case by (simp add: b Let_def Cons.IH)
qed

text \<open>
  Claim C1. For every stream and every start \<open>s \<ge> 0\<close> given together with a stop
  \<open>t > s\<close> or with no stop, Range Search writes exactly the blocks at the positions
  \<open>p\<close> with \<open>s \<le> p\<close> and \<open>p < t\<close>, in stream order; its result is false iff
  the stream ended before position \<open>s\<close> was reached (it has at most \<open>s\<close> blocks)
  or, with a stop, before position \<open>t - 1\<close> was reached; when the stream reaches
  position \<open>t\<close>, the block there is pulled and nothing behind it.
\<close>

theorem RangeSearch_scan_correct:
  assumes "0 \<le> s" and "case stop of None \<Rightarrow> True | Some t \<Rightarrow> s < t"
  shows "written (RangeSearch_scan (Some s) stop reader) =
           nths reader {p. s \<le> int p \<and> (case stop of None \<Rightarrow> True | Some t \<Rightarrow> int p < t)} \<and>
         (\<not> result (RangeSearch_scan (Some s) stop reader) \<longleftrightarrow>
            int (length reader) \<le> s \<or>
            (case stop of None \<Rightarrow> False | Some t \<Rightarrow> int (length reader) \<le> t - 1)) \<and>
         unread (RangeSearch_scan (Some s) stop reader) =
           (case stop of None \<Rightarrow> [] | Some t \<Rightarrow> drop (nat t + 1) reader)"
proof (intro conjI)
  show "written (RangeSearch_scan (Some s) stop reader) =
          nths reader {p. s \<le> int p \<and> (case stop of None \<Rightarrow> True | Some t \<Rightarrow> int p < t)}"
    by (simp add: RangeSearch_scan_def RangeSearch_loop_written in_range_def)
  show "\<not> result (RangeSearch_scan (Some s) stop reader) \<longleftrightarrow>
          int (length reader) \<le> s \<or>
          (case stop of None \<Rightarrow> False | Some t \<Rightarrow> int (length reader) \<le> t - 1)"
  proof -
    from assms have "case stop of None \<Rightarrow> True | Some t \<Rightarrow> - 1 < t"
      by (auto split: option.splits)
    from RangeSearch_loop_result [OF this] assms show ?thesis
      by (auto simp: RangeSearch_scan_def split: option.splits)
  qed
  show "unread (RangeSearch_scan (Some s) stop reader) =
          (case stop of None \<Rightarrow> [] | Some t \<Rightarrow> drop (nat t + 1) reader)"
  proof (cases stop)
    case None
    then show ?thesis by (simp add: RangeSearch_scan_def RangeSearch_loop_unread_None)
  next
    case (Some t)
    with assms have "- 1 < t" by simp
    from RangeSearch_loop_unread [OF this] Some assms show ?thesis
      by (simp add: RangeSearch_scan_def nat_add_distrib)
  qed
qed

theorem RangeSearch_scan_correct_witness:
  "(0::int) \<le> 1 \<and> (1::int) < 3 \<and>
   RangeSearch_scan (Some 1) (Some 3) [(''A'', []), (''B'', []), (''C'', []), (''D'', [])] =
     \<lparr>written = [(''B'', []), (''C'', [])], unread = [], result = True\<rparr> \<and>
   RangeSearch_scan (Some 1) (Some 3) [(''A'', []), (''B'', [])] =
     \<lparr>written = [(''B'', [])], unread = [], result = False\<rparr> \<and>
   RangeSearch_scan (Some 5) None [(''A'', []), (''B'', []), (''C'', [])] =
     \<lparr>written = [], unread = [], result = False\<rparr> \<and>
   RangeSearch_scan (Some 0) None [(''A'', []), (''B'', [])] =
     \<lparr>written = [(''A'', []), (''B'', [])], unread = [], result = True\<rparr>"
proof -
  have h13: "(0::int) \<le> 1" "case Some 3 of None \<Rightarrow> True | Some t \<Rightarrow> (1::int) < t"
    by simp_all
  have h5: "(0::int) \<le> 5" "case None of None \<Rightarrow> True | Some t \<Rightarrow> (5::int) < t"
    by simp_all
  have h0: "(0::int) \<le> 0" "case None of None \<Rightarrow> True | Some t \<Rightarrow> (0::int) < t"
    by simp_all
  note full = RangeSearch_scan_correct [OF h13, THEN conjunct2, THEN conjunct1,
      of "[(''A'', []), (''B'', []), (''C'', []), (''D'', [])]"]
  note short = RangeSearch_scan_correct [OF h13, THEN conjunct2, THEN conjunct1,
      of "[(''A'', []), (''B'', [])]"]
  note late = RangeSearch_scan_correct [OF h5, THEN conjunct2, THEN conjunct1,
      of "[(''A'', []), (''B'', []), (''C'', [])]"]
  note open_end = RangeSearch_scan_correct [OF h0, THEN conjunct2, THEN conjunct1,
      of "[(''A'', []), (''B'', [])]"]
  have r1: "result (RangeSearch_scan (Some 1) (Some 3)
      [(''A'', []), (''B'', []), (''C'', []), (''D'', [])])"
    using full by simp
  have r2: "\<not> result (RangeSearch_scan (Some 1) (Some 3) [(''A'', []), (''B'', [])])"
    using short by simp
  have r3: "\<not> result (RangeSearch_scan (Some 5) None [(''A'', []), (''B'', []), (''C'', [])])"
    using late by simp
  have r4: "result (RangeSearch_scan (Some 0) None [(''A'', []), (''B'', [])])"
    using open_end by simp
  from r1 r2 r3 r4 show ?thesis
    by (simp add: RangeSearch_scan_def)
qed

text \<open>
  With the start omitted the scan agrees with the scan from start 0 as soon as the stream
  has a block or a positive stop is given.
\<close>

lemma RangeSearch_loop_start_default:
  "0 \<le> pos \<or> reader \<noteq> [] \<and> - 1 \<le> pos \<or> (\<exists>t. stop = Some t \<and> pos < t - 1 \<and> - 1 \<le> pos) \<Longrightarrow>
   RangeSearch_loop None stop reader pos out = RangeSearch_loop (Some 0) stop reader pos out"
proof (induction reader arbitrary: pos out)
  case Nil
  then show ?case by auto
next
  case (Cons b reader)
  obtain header lines where b: "b = (header, lines)" by (cases b)
  from Cons.prems have "0 \<le> pos + 1" by auto
  then have "RangeSearch_loop None stop reader (pos + 1) out' =
             RangeSearch_loop (Some 0) stop reader (pos + 1) out'" for out'
    by (intro Cons.IH) simp
  with \<open>0 \<le> pos + 1\<close> show ?case by (cases stop) (simp_all add: b Let_def)
qed

lemma RangeSearch_scan_start_default:
  "reader \<noteq> [] \<or> (\<exists>t. stop = Some t \<and> 0 < t) \<Longrightarrow>
   RangeSearch_scan None stop reader = RangeSearch_scan (Some 0) stop reader"
  unfolding RangeSearch_scan_def by (rule RangeSearch_loop_start_default) auto

text \<open>
  Claim C5. Range Search with the start omitted is meant to behave as Range Search with
  start 0. On the empty stream with the stop omitted too it does not: \<open>@:\<close> returns
  true, and the process ends normally, while \<open>@0:\<close> returns false, and the process
  reports missing blocks.
\<close>

theorem RangeSearch_start_omitted_differs:
  "parse_range ''@:'' = Inr (Range None None) \<and>
   parse_range ''@0:'' = Inr (Range (Some 0) None) \<and>
   RangeSearch_scan None None [] = \<lparr>written = [], unread = [], result = True\<rparr> \<and>
   RangeSearch_scan (Some 0) None [] = \<lparr>written = [], unread = [], result = False\<rparr> \<and>
   main (example_env (\<lambda>name. None)) default_options [''@:''] [] =
     \<lparr>stdout = [], status = None\<rparr> \<and>
   main (example_env (\<lambda>name. None)) default_options [''@0:''] [] =
     \<lparr>stdout = [], status = Some (Exit ''Some FASTA blocks are missing.'' [])\<rparr>"
proof -
  have p1: "parse_range ''@:'' = Inr (Range None None)"
    by (simp add: parse_range_def)
  have p2: "parse_range ''@0:'' = Inr (Range (Some 0) None)"
    by (simp add: parse_range_def py_int_def is_space_def is_digit_def digits_value_def)
  have s1: "RangeSearch_scan None None [] = \<lparr>written = [], unread = [], result = True\<rparr>"
    by (simp add: RangeSearch_scan_def)
  have s2: "RangeSearch_scan (Some 0) None [] = \<lparr>written = [], unread = [], result = False\<rparr>"
    by (simp add: RangeSearch_scan_def)
  have m1: "main (example_env (\<lambda>name. None)) default_options [''@:''] [] =
     \<lparr>stdout = [], status = None\<rparr>"
    by (simp add: main_def select_search_def default_options_def is_range_def p1 s1 emit_def)
  have m2: "main (example_env (\<lambda>name. None)) default_options [''@0:''] [] =
     \<lparr>stdout = [], status = Some (Exit ''Some FASTA blocks are missing.'' [])\<rparr>"
    by (simp add: main_def select_search_def default_options_def is_range_def p2 s2 emit_def)
  from p1 p2 s1 s2 m1 m2 show ?thesis by (simp only: simp_thms)
qed

section \<open>Properties of MultipleLabelSearch\<close>

text \<open>
  The inner loop: no index when no matcher accepts the header, and otherwise the least
  index of a matcher that does.
\<close>

lemma first_match_None:
  "first_match (enumerate n ms) header = None \<longleftrightarrow> (\<forall>m \<in> set ms. \<not> m header)"
  by (induction ms arbitrary: n) auto

lemma first_match_Some:
  "first_match (enumerate n ms) header = Some idx \<longleftrightarrow>
     n \<le> idx \<and> idx - n < length ms \<and> (ms ! (idx - n)) header \<and>
     (\<forall>j < idx - n. \<not> (ms ! j) header)"
proof (induction ms arbitrary: n)
  case Nil
  then show ?case by simp
next
  case (Cons m ms)
  show ?case
  proof (cases "m header")
    case True
    have "idx = n" if "n \<le> idx" "\<forall>j < idx - n. \<not> ((m # ms) ! j) header"
    proof (rule ccontr)
      assume "idx \<noteq> n"
      with that(1) have "0 < idx - n" by simp
      with that(2) have "\<not> ((m # ms) ! 0) header" by blast
      with True show False by simp
    qed
    with True show ?thesis by auto
  next
    case False
    have "(Suc n \<le> idx \<and> idx - Suc n < length ms \<and> (ms ! (idx - Suc n)) header \<and>
            (\<forall>j < idx - Suc n. \<not> (ms ! j) header)) \<longleftrightarrow>
          (n \<le> idx \<and> idx - n < length (m # ms) \<and> ((m # ms) ! (idx - n)) header \<and>
            (\<forall>j < idx - n. \<not> ((m # ms) ! j) header))"
      (is "?L \<longleftrightarrow> ?R")
    proof
      assume l: ?L
      then have "Suc n \<le> idx" by blast
      then have eq: "idx - n = Suc (idx - Suc n)" by arith
      have "\<not> ((m # ms) ! j) header" if "j < idx - n" for j
        using that l False by (cases j) (auto simp: eq)
      with l show ?R by (simp add: eq)
    next
      assume r: ?R
      with False have "idx - n \<noteq> 0" by (auto intro: ccontr)
      then obtain k where k: "idx - n = Suc k" by (cases "idx - n") auto
      then have eq: "idx - Suc n = k" by arith
      have "\<not> (ms ! j) header" if "j < k" for j
        using r that k by (auto dest: spec [of _ "Suc j"])
      with r k show ?L by (auto simp: eq)
    qed
    with False Cons.IH [of "Suc n"] show ?thesis by simp
  qed
qed

lemma first_match_0:
  "first_match (enumerate 0 ms) header = Some idx \<longleftrightarrow>
     idx < length ms \<and> (ms ! idx) header \<and> (\<forall>j < idx. \<not> (ms ! j) header)"
  using first_match_Some [of 0 ms header idx] by simp

lemma length_del: "idx < length xs \<Longrightarrow> length (del idx xs) = length xs - 1"
  by (simp add: del_def)

text \<open>
  What is written is taken from the stream, block by block, in order.
\<close>

lemma MultipleLabelSearch_loop_subseq:
  "\<exists>ws. written (MultipleLabelSearch_loop reuse_matches reader matches found out) = out @ ws \<and>
        subseq ws reader"
proof (induction reader arbitrary: matches found out)
  case Nil
  then show ?case by simp
next
  case (Cons b reader)
  obtain header lines where b: "b = (header, lines)" by (cases b)
  show ?case
  proof (cases "first_match (enumerate 0 matches) header")
    case None
    show ?thesis
    proof (cases "length matches = 0")
      case True
      with None show ?thesis by (simp add: b)
    next
      case False
      from Cons.IH [of matches found out] obtain ws where
        "written (MultipleLabelSearch_loop reuse_matches reader matches found out) = out @ ws"
        "subseq ws reader" by blast
      with None False show ?thesis by (auto simp: b)
    qed
  next
    case (Some idx)
    define matches' where "matches' = (if reuse_matches then matches else del idx matches)"
    define found' where "found' = (if reuse_matches then found[idx := True] else del idx found)"
    show ?thesis
    proof (cases "length matches' = 0")
      case True
      with Some have "written (MultipleLabelSearch_loop reuse_matches (b # reader) matches found out) =
          out @ [b]"
        by (simp add: b Let_def matches'_def)
      then show ?thesis by auto
    next
      case False
      with Some have step:
        "MultipleLabelSearch_loop reuse_matches (b # reader) matches found out =
         MultipleLabelSearch_loop reuse_matches reader matches' found' (out @ [b])"
        by (simp add: b Let_def matches'_def found'_def)
      from Cons.IH [of matches' found' "out @ [b]"] obtain ws where
        "written (MultipleLabelSearch_loop reuse_matches reader matches' found' (out @ [b])) =
           (out @ [b]) @ ws" "subseq ws reader" by blast
      with step have "written (MultipleLabelSearch_loop reuse_matches (b # reader) matches found out) =
          out @ (b # ws) \<and> subseq (b # ws) (b # reader)" by simp
      then show ?thesis by blast
    qed
  qed
qed

text \<open>
  With \<open>reuse_matches\<close> the collection never changes: a block is written iff some
  matcher accepts its label, and the result is true iff every index was, for some block,
  the first index accepting it.
\<close>

lemma MultipleLabelSearch_loop_reuse_written:
  "written (MultipleLabelSearch_loop True reader matches found out) =
     out @ filter (\<lambda>b. \<exists>m \<in> set matches. m (fst b)) reader"
proof (induction reader arbitrary: found out)
  case Nil
  then show ?case by simp
next
  case (Cons b reader)
  obtain header lines where b: "b = (header, lines)" by (cases b)
  show ?case
  proof (cases "first_match (enumerate 0 matches) header")
    case None
    then have "\<forall>m \<in> set matches. \<not> m header" by (simp add: first_match_None)
    then have "\<not> (\<exists>m \<in> set matches. m (fst b))" unfolding b fst_conv by blast
    then have no: "(\<exists>m \<in> set matches. m (fst b)) = False" by (rule eq_False [THEN iffD2])
    show ?thesis
    proof (cases "length matches = 0")
      case True
      then have "filter (\<lambda>b. \<exists>m \<in> set matches. m (fst b)) reader = []" by simp
      moreover from None True have "MultipleLabelSearch_loop True (b # reader) matches found out =
          \<lparr>written = out, unread = reader, result = list_all (\<lambda>f. f) found\<rparr>"
        by (simp add: b)
      ultimately show ?thesis by (simp add: no)
    next
      case False
      with None have "MultipleLabelSearch_loop True (b # reader) matches found out =
          MultipleLabelSearch_loop True reader matches found out"
        by (simp add: b)
      then show ?thesis by (simp add: no Cons.IH)
    qed
  next
    case (Some idx)
    then have idx: "idx < length matches" "(matches ! idx) header"
      by (simp_all add: first_match_0)
    then have "matches ! idx \<in> set matches" by simp
    with idx have "\<exists>m \<in> set matches. m (fst b)" unfolding b fst_conv by blast
    then have yes: "(\<exists>m \<in> set matches. m (fst b)) = True" by (rule eqTrueI)
    from idx have "length matches \<noteq> 0" by auto
    with Some have "MultipleLabelSearch_loop True (b # reader) matches found out =
        MultipleLabelSearch_loop True reader matches (found[idx := True]) (out @ [b])"
      by (simp add: b Let_def)
    then show ?thesis by (simp add: yes Cons.IH)
  qed
qed

lemma MultipleLabelSearch_loop_reuse_result:
  "length found = length matches \<Longrightarrow>
   result (MultipleLabelSearch_loop True reader matches found out) \<longleftrightarrow>
     (\<forall>i < length matches. found ! i \<or>
        (\<exists>b \<in> set reader. first_match (enumerate 0 matches) (fst b) = Some i))"
proof (induction reader arbitrary: found out)
  case Nil
  then show ?case by (simp add: list_all_length)
next
  case (Cons b reader)
  obtain header lines where b: "b = (header, lines)" by (cases b)
  show ?case
  proof (cases "first_match (enumerate 0 matches) header")
    case None
    show ?thesis
    proof (cases "length matches = 0")
      case True
      with None Cons.prems show ?thesis by (simp add: b)
    next
      case False
      with None Cons.IH [OF Cons.prems] show ?thesis by (simp add: b)
    qed
  next
    case (Some idx)
    then have idx: "idx < length matches" by (simp add: first_match_0)
    then have ne: "length matches \<noteq> 0" by auto
    from Cons.prems have len: "length (found[idx := True]) = length matches" by simp
    have upd: "found[idx := True] ! i \<longleftrightarrow> found ! i \<or> i = idx" if "i < length matches" for i
      using that Cons.prems by (cases "i = idx") simp_all
    have hit: "first_match (enumerate 0 matches) header = Some i \<longleftrightarrow> i = idx" for i
      using Some by auto
    have "(\<forall>i < length matches. found[idx := True] ! i \<or>
            (\<exists>b \<in> set reader. first_match (enumerate 0 matches) (fst b) = Some i)) \<longleftrightarrow>
          (\<forall>i < length matches. found ! i \<or>
            (\<exists>b \<in> set (b # reader). first_match (enumerate 0 matches) (fst b) = Some i))"
      by (simp add: b upd hit disj_ac cong: conj_cong imp_cong)
    with Some ne Cons.IH [OF len] show ?thesis by (simp add: b Let_def)
  qed
qed

text \<open>
  Deleting an index, and collections in which no label is accepted by two matchers.
\<close>

lemma set_del:
  assumes "idx < length xs"
  shows "set xs = insert (xs ! idx) (set (del idx xs))"
proof -
  from assms have "xs = take idx xs @ xs ! idx # drop (Suc idx) xs"
    by (rule id_take_nth_drop)
  then have "set xs = set (take idx xs @ xs ! idx # drop (Suc idx) xs)" by simp
  then show ?thesis by (simp add: del_def)
qed

lemma filter_del_count:
  assumes "idx < length xs"
  shows "length (filter P xs) =
         length (filter P (del idx xs)) + (if P (xs ! idx) then 1 else 0)"
proof -
  from assms have "xs = take idx xs @ xs ! idx # drop (Suc idx) xs"
    by (rule id_take_nth_drop)
  then have "filter P xs = filter P (take idx xs @ xs ! idx # drop (Suc idx) xs)" by simp
  then show ?thesis by (simp add: del_def)
qed

lemma exclusive_del:
  assumes "exclusive ms" and "idx < length ms"
  shows "exclusive (del idx ms)"
  unfolding exclusive_def
proof
  fix h
  from assms(1) have "length (filter (\<lambda>m. m h) ms) \<le> 1" by (simp add: exclusive_def)
  with filter_del_count [OF assms(2), of "\<lambda>m. m h"]
  show "length (filter (\<lambda>m. m h) (del idx ms)) \<le> 1" by simp
qed

lemma exclusive_other:
  assumes "exclusive ms" and "idx < length ms" and "(ms ! idx) h" and "m \<in> set (del idx ms)"
  shows "\<not> m h"
proof
  assume "m h"
  with assms(4) have "\<exists>m' \<in> set (del idx ms). m' h" by blast
  then have "filter (\<lambda>m. m h) (del idx ms) \<noteq> []" by (simp only: filter_empty_conv) blast
  then obtain n where "length (filter (\<lambda>m. m h) (del idx ms)) = Suc n"
    by (cases "filter (\<lambda>m. m h) (del idx ms)") auto
  with filter_del_count [OF assms(2), of "\<lambda>m. m h"] assms(3)
  have "length (filter (\<lambda>m. m h) ms) = Suc (Suc n)" by simp
  moreover from assms(1) have "length (filter (\<lambda>m. m h) ms) \<le> 1" by (simp add: exclusive_def)
  ultimately show False by simp
qed

lemma exclusive_first_match:
  assumes "exclusive ms"
  shows "first_match (enumerate 0 ms) h = Some i \<longleftrightarrow> i < length ms \<and> (ms ! i) h"
proof
  assume "first_match (enumerate 0 ms) h = Some i"
  then show "i < length ms \<and> (ms ! i) h" by (simp add: first_match_0)
next
  assume r: "i < length ms \<and> (ms ! i) h"
  have "\<not> (ms ! j) h" if "j < i" for j
  proof -
    from r have "i < length ms" by blast
    with that have "j < length (del i ms)" "del i ms ! j = ms ! j"
      by (simp_all add: del_def nth_append)
    then have "ms ! j \<in> set (del i ms)" by (metis nth_mem)
    with exclusive_other [OF assms, of i h] r show ?thesis by blast
  qed
  with r show "first_match (enumerate 0 ms) h = Some i" by (simp add: first_match_0)
qed

text \<open>
  Without \<open>reuse_matches\<close> the list \<open>found\<close> always holds \<open>False\<close> only, one for
  each matcher still in the collection, so the result is true iff the collection ran
  empty.
\<close>

lemma del_replicate: "idx < n \<Longrightarrow> del idx (replicate n x) = replicate (n - 1) x"
proof -
  assume "idx < n"
  then have "idx + (n - Suc idx) = n - 1" by arith
  then have "replicate idx x @ replicate (n - Suc idx) x = replicate (n - 1) x"
    by (simp only: replicate_add [symmetric])
  with \<open>idx < n\<close> show ?thesis by (simp add: del_def min_def)
qed

lemma all_replicate_False: "list_all (\<lambda>f. f) (replicate n False) \<longleftrightarrow> n = 0"
  by (cases n) simp_all

text \<open>One step of the loop when \<open>reuse_matches\<close> is false and a matcher accepts the header.\<close>

lemma MultipleLabelSearch_loop_once_step:
  assumes "first_match (enumerate 0 matches) header = Some idx"
  shows "MultipleLabelSearch_loop False ((header, lines) # reader) matches
           (replicate (length matches) False) out =
         (if length matches = 1
          then \<lparr>written = out @ [(header, lines)], unread = reader, result = True\<rparr>
          else MultipleLabelSearch_loop False reader (del idx matches)
                 (replicate (length (del idx matches)) False) (out @ [(header, lines)]))"
proof -
  from assms have idx: "idx < length matches" by (simp add: first_match_0)
  then have len: "length (del idx matches) = length matches - 1" by (rule length_del)
  from idx have found: "del idx (replicate (length matches) False) =
      replicate (length matches - 1) False" by (rule del_replicate)
  from idx have one: "length matches - 1 = 0 \<longleftrightarrow> length matches = 1" by arith
  have empty: "del idx matches = [] \<longleftrightarrow> length matches = 1"
    using len one by (simp only: length_0_conv [symmetric])
  show ?thesis
  proof (cases "length matches = 1")
    case True
    with empty have "del idx matches = []" by simp
    moreover from True idx have "idx = 0" by simp
    ultimately show ?thesis using True assms by (simp add: Let_def del_def)
  next
    case False
    with empty have "del idx matches \<noteq> []" by simp
    with False assms show ?thesis by (simp add: Let_def found len)
  qed
qed

lemma MultipleLabelSearch_loop_once_miss:
  assumes "first_match (enumerate 0 matches) header = None"
  shows "MultipleLabelSearch_loop False ((header, lines) # reader) matches
           (replicate (length matches) False) out =
         (if matches = []
          then \<lparr>written = out, unread = reader, result = True\<rparr>
          else MultipleLabelSearch_loop False reader matches
                 (replicate (length matches) False) out)"
  using assms by simp

text \<open>
  When no label is accepted by two matchers, the result without \<open>reuse_matches\<close> is
  true iff every matcher accepts the label of some block.
\<close>

lemma MultipleLabelSearch_loop_once_result:
  assumes "exclusive matches"
  shows "result (MultipleLabelSearch_loop False reader matches
           (replicate (length matches) False) out) \<longleftrightarrow>
         (\<forall>m \<in> set matches. \<exists>b \<in> set reader. m (fst b))"
  using assms
proof (induction reader arbitrary: matches out)
  case Nil
  then show ?case by (simp add: all_replicate_False)
next
  case (Cons b reader)
  obtain header lines where b: "b = (header, lines)" by (cases b)
  show ?case
  proof (cases "first_match (enumerate 0 matches) header")
    case None
    then have no: "\<forall>m \<in> set matches. \<not> m header" by (simp add: first_match_None)
    show ?thesis
    proof (cases "matches = []")
      case True
      with None show ?thesis unfolding b by (simp only: MultipleLabelSearch_loop_once_miss) simp
    next
      case False
      have "(\<forall>m \<in> set matches. \<exists>b \<in> set (b # reader). m (fst b)) \<longleftrightarrow>
            (\<forall>m \<in> set matches. \<exists>b \<in> set reader. m (fst b))"
        using no unfolding b by fastforce
      with None False Cons.IH [OF Cons.prems, of out] show ?thesis
        unfolding b by (simp only: MultipleLabelSearch_loop_once_miss if_False)
    qed
  next
    case (Some idx)
    then have idx: "idx < length matches" "(matches ! idx) header"
      by (simp_all add: first_match_0)
    note step = MultipleLabelSearch_loop_once_step [OF Some, of lines reader out]
    have sets: "set matches = insert (matches ! idx) (set (del idx matches))"
      using idx(1) by (rule set_del)
    have others: "\<not> m header" if "m \<in> set (del idx matches)" for m
      using exclusive_other [OF Cons.prems idx that] .
    show ?thesis
    proof (cases "length matches = 1")
      case True
      with idx(1) have "length (del idx matches) = 0" by (simp add: length_del)
      then have "set (del idx matches) = {}" by simp
      with sets have "set matches = {matches ! idx}" by simp
      then have "\<forall>m \<in> set matches. \<exists>b \<in> set (b # reader). m (fst b)"
        using idx(2) unfolding b by simp
      with True step show ?thesis unfolding b by simp
    next
      case False
      have ex: "exclusive (del idx matches)"
        using Cons.prems idx(1) by (rule exclusive_del)
      have "(\<forall>m \<in> set matches. \<exists>b \<in> set (b # reader). m (fst b)) \<longleftrightarrow>
            (\<forall>m \<in> set (del idx matches). \<exists>b \<in> set reader. m (fst b))"
        (is "?L \<longleftrightarrow> ?R")
      proof
        assume l: ?L
        show ?R
        proof
          fix m assume m: "m \<in> set (del idx matches)"
          with sets have "m \<in> set matches" by simp
          with l obtain b' where b': "b' \<in> set (b # reader)" "m (fst b')" by blast
          from others [OF m] b'(2) have "b' \<noteq> b" unfolding b by auto
          with b' show "\<exists>b \<in> set reader. m (fst b)" by auto
        qed
      next
        assume r: ?R
        show ?L
        proof
          fix m assume "m \<in> set matches"
          with sets have "m = matches ! idx \<or> m \<in> set (del idx matches)" by auto
          then show "\<exists>b \<in> set (b # reader). m (fst b)"
          proof
            assume "m = matches ! idx"
            with idx(2) show ?thesis unfolding b by simp
          next
            assume "m \<in> set (del idx matches)"
            with r obtain b' where "b' \<in> set reader" "m (fst b')" by blast
            then show ?thesis by auto
          qed
        qed
      qed
      with False step Cons.IH [OF ex, of "out @ [b]"] show ?thesis
        unfolding b by simp
    qed
  qed
qed

text \<open>
  Each write removes a matcher: there are at most as many writes as matchers, and a scan
  that returns true stopped right behind the block it wrote last.
\<close>

lemma MultipleLabelSearch_loop_once_bound:
  "length (written (MultipleLabelSearch_loop False reader matches found out)) \<le>
     length out + length matches"
proof (induction reader arbitrary: matches found out)
  case Nil
  then show ?case by simp
next
  case (Cons b reader)
  obtain header lines where b: "b = (header, lines)" by (cases b)
  show ?case
  proof (cases "first_match (enumerate 0 matches) header")
    case None
    with Cons.IH [of matches found out] show ?thesis by (simp add: b)
  next
    case (Some idx)
    then have idx: "idx < length matches" by (simp add: first_match_0)
    then have len: "length (del idx matches) = length matches - 1" by (rule length_del)
    from Cons.IH [of "del idx matches" "del idx found" "out @ [b]"] len idx
    have "length (written (MultipleLabelSearch_loop False reader (del idx matches)
            (del idx found) (out @ [b]))) \<le> length out + length matches"
      by simp
    with Some idx show ?thesis by (auto simp: b Let_def)
  qed
qed

lemma MultipleLabelSearch_loop_once_stop:
  assumes "matches \<noteq> []"
    and "result (MultipleLabelSearch_loop False reader matches
           (replicate (length matches) False) out)"
  shows "\<exists>pre b ws. reader = pre @ b # unread (MultipleLabelSearch_loop False reader matches
             (replicate (length matches) False) out) \<and>
           written (MultipleLabelSearch_loop False reader matches
             (replicate (length matches) False) out) = ws @ [b]"
  using assms
proof (induction reader arbitrary: matches out)
  case Nil
  then show ?case by (simp add: all_replicate_False)
next
  case (Cons b reader)
  obtain header lines where b: "b = (header, lines)" by (cases b)
  show ?case
  proof (cases "first_match (enumerate 0 matches) header")
    case None
    note miss = MultipleLabelSearch_loop_once_miss [OF None, of lines reader out]
    from miss Cons.prems have same:
      "MultipleLabelSearch_loop False (b # reader) matches (replicate (length matches) False) out =
       MultipleLabelSearch_loop False reader matches (replicate (length matches) False) out"
      by (simp add: b)
    with Cons.prems have "result (MultipleLabelSearch_loop False reader matches
        (replicate (length matches) False) out)" by simp
    from Cons.IH [OF Cons.prems(1) this] obtain pre b' ws where
      "reader = pre @ b' # unread (MultipleLabelSearch_loop False reader matches
          (replicate (length matches) False) out)"
      "written (MultipleLabelSearch_loop False reader matches
          (replicate (length matches) False) out) = ws @ [b']" by blast
    then have "b # reader = (b # pre) @ b' # unread (MultipleLabelSearch_loop False reader matches
          (replicate (length matches) False) out) \<and>
      written (MultipleLabelSearch_loop False reader matches
          (replicate (length matches) False) out) = ws @ [b']" by simp
    then show ?thesis unfolding same by blast
  next
    case (Some idx)
    then have idx: "idx < length matches" by (simp add: first_match_0)
    note step = MultipleLabelSearch_loop_once_step [OF Some, of lines reader out]
    show ?thesis
    proof (cases "length matches = 1")
      case True
      with step have "MultipleLabelSearch_loop False (b # reader) matches
          (replicate (length matches) False) out =
          \<lparr>written = out @ [b], unread = reader, result = True\<rparr>" by (simp add: b)
      then have "b # reader = [] @ b # unread (MultipleLabelSearch_loop False (b # reader) matches
          (replicate (length matches) False) out) \<and>
        written (MultipleLabelSearch_loop False (b # reader) matches
          (replicate (length matches) False) out) = out @ [b]" by simp
      then show ?thesis by blast
    next
      case False
      with step have same: "MultipleLabelSearch_loop False (b # reader) matches
          (replicate (length matches) False) out =
          MultipleLabelSearch_loop False reader (del idx matches)
            (replicate (length (del idx matches)) False) (out @ [b])" by (simp add: b)
      from False idx have "length (del idx matches) \<noteq> 0" by (simp add: length_del)
      then have ne: "del idx matches \<noteq> []" by simp
      from Cons.prems(2) have "result (MultipleLabelSearch_loop False reader (del idx matches)
            (replicate (length (del idx matches)) False) (out @ [b]))" unfolding same .
      from Cons.IH [OF ne this] obtain pre b' ws where
        "reader = pre @ b' # unread (MultipleLabelSearch_loop False reader (del idx matches)
            (replicate (length (del idx matches)) False) (out @ [b]))"
        "written (MultipleLabelSearch_loop False reader (del idx matches)
            (replicate (length (del idx matches)) False) (out @ [b])) = ws @ [b']" by blast
      then have "b # reader = (b # pre) @ b' # unread (MultipleLabelSearch_loop False reader
            (del idx matches) (replicate (length (del idx matches)) False) (out @ [b])) \<and>
        written (MultipleLabelSearch_loop False reader (del idx matches)
            (replicate (length (del idx matches)) False) (out @ [b])) = ws @ [b']" by simp
      then show ?thesis unfolding same by blast
    qed
  qed
qed

text \<open>
  A matcher that accepts no label of the stream makes the result false, in any
  collection.
\<close>

lemma MultipleLabelSearch_loop_once_absent:
  assumes "m \<in> set matches" and "\<forall>b \<in> set reader. \<not> m (fst b)"
  shows "\<not> result (MultipleLabelSearch_loop False reader matches
           (replicate (length matches) False) out)"
  using assms
proof (induction reader arbitrary: matches out)
  case Nil
  then have "length matches \<noteq> 0" by auto
  then show ?case by (simp add: all_replicate_False)
next
  case (Cons b reader)
  obtain header lines where b: "b = (header, lines)" by (cases b)
  from Cons.prems(2) have rest: "\<forall>b \<in> set reader. \<not> m (fst b)" and here: "\<not> m header"
    unfolding b by auto
  from Cons.prems(1) have ne: "matches \<noteq> []" by auto
  show ?case
  proof (cases "first_match (enumerate 0 matches) header")
    case None
    from MultipleLabelSearch_loop_once_miss [OF None, of lines reader out] ne
      Cons.IH [OF Cons.prems(1) rest, of out]
    show ?thesis by (simp add: b)
  next
    case (Some idx)
    then have idx: "idx < length matches" "(matches ! idx) header"
      by (simp_all add: first_match_0)
    with here have "m \<noteq> matches ! idx" by blast
    with set_del [OF idx(1)] Cons.prems(1) have m: "m \<in> set (del idx matches)" by auto
    then have "length (del idx matches) \<noteq> 0" by auto
    with idx(1) have "length matches \<noteq> 1" by (simp add: length_del)
    with MultipleLabelSearch_loop_once_step [OF Some, of lines reader out]
      Cons.IH [OF m rest, of "out @ [b]"]
    show ?thesis by (simp add: b)
  qed
qed

lemma MultipleLabelSearch_loop_reuse_absent:
  assumes "m \<in> set matches" and "\<forall>b \<in> set reader. \<not> m (fst b)"
  shows "\<not> result (MultipleLabelSearch_loop True reader matches
           (replicate (length matches) False) out)"
proof -
  from assms(1) obtain i where i: "i < length matches" "matches ! i = m"
    by (auto simp: in_set_conv_nth)
  have "first_match (enumerate 0 matches) (fst b) \<noteq> Some i" if "b \<in> set reader" for b
  proof
    assume "first_match (enumerate 0 matches) (fst b) = Some i"
    then have "(matches ! i) (fst b)" by (simp add: first_match_0)
    with i(2) assms(2) that show False by blast
  qed
  then have "\<not> (\<exists>b \<in> set reader. first_match (enumerate 0 matches) (fst b) = Some i)"
    by blast
  moreover from i(1) have "\<not> replicate (length matches) False ! i" by simp
  ultimately have "\<not> (\<forall>i < length matches. replicate (length matches) False ! i \<or>
      (\<exists>b \<in> set reader. first_match (enumerate 0 matches) (fst b) = Some i))"
    using i(1) by blast
  moreover have "result (MultipleLabelSearch_loop True reader matches
        (replicate (length matches) False) out) \<longleftrightarrow>
      (\<forall>i < length matches. replicate (length matches) False ! i \<or>
        (\<exists>b \<in> set reader. first_match (enumerate 0 matches) (fst b) = Some i))"
    by (rule MultipleLabelSearch_loop_reuse_result) simp
  ultimately show ?thesis by blast
qed

lemma MultipleLabelSearch_loop_reuse_exclusive:
  assumes "exclusive matches"
  shows "result (MultipleLabelSearch_loop True reader matches
           (replicate (length matches) False) out) \<longleftrightarrow>
         (\<forall>m \<in> set matches. \<exists>b \<in> set reader. m (fst b))"
proof -
  have "result (MultipleLabelSearch_loop True reader matches
           (replicate (length matches) False) out) \<longleftrightarrow>
        (\<forall>i < length matches. \<exists>b \<in> set reader. (matches ! i) (fst b))"
    by (simp add: MultipleLabelSearch_loop_reuse_result exclusive_first_match [OF assms]
        cong: conj_cong imp_cong)
  also have "\<dots> \<longleftrightarrow> (\<forall>m \<in> set matches. \<exists>b \<in> set reader. m (fst b))"
    by (simp only: all_set_conv_all_nth)
  finally show ?thesis .
qed

text \<open>
  The same for \<open>scan\<close>. For a collection in which no label is accepted by two
  matchers, the result is true iff every matcher accepts the label of some block.
\<close>

lemma MultipleLabelSearch_scan_exclusive:
  assumes "exclusive matches"
  shows "result (MultipleLabelSearch_scan matches reuse_matches reader) \<longleftrightarrow>
         (\<forall>m \<in> set matches. \<exists>b \<in> set reader. m (fst b))"
proof (cases reuse_matches)
  case True
  then show ?thesis
    unfolding MultipleLabelSearch_scan_def
    using MultipleLabelSearch_loop_reuse_exclusive [OF assms, of reader "[]"] by simp
next
  case False
  then show ?thesis
    unfolding MultipleLabelSearch_scan_def
    using MultipleLabelSearch_loop_once_result [OF assms, of reader "[]"] by simp
qed

lemma MultipleLabelSearch_scan_absent:
  assumes "m \<in> set matches" and "\<forall>b \<in> set reader. \<not> m (fst b)"
  shows "\<not> result (MultipleLabelSearch_scan matches reuse_matches reader)"
proof (cases reuse_matches)
  case True
  then show ?thesis
    unfolding MultipleLabelSearch_scan_def
    using MultipleLabelSearch_loop_reuse_absent [OF assms, of "[]"] by simp
next
  case False
  then show ?thesis
    unfolding MultipleLabelSearch_scan_def
    using MultipleLabelSearch_loop_once_absent [OF assms, of "[]"] by simp
qed

lemma MultipleLabelSearch_scan_once_stop:
  assumes "matches \<noteq> []" and "result (MultipleLabelSearch_scan matches False reader)"
  shows "\<exists>pre b ws. reader = pre @ b # unread (MultipleLabelSearch_scan matches False reader) \<and>
           written (MultipleLabelSearch_scan matches False reader) = ws @ [b]"
  using assms unfolding MultipleLabelSearch_scan_def
  by (rule MultipleLabelSearch_loop_once_stop)

text \<open>
  Claim C10. During a Multi-Label Search every block of the stream is written at most
  once, also when several matchers of the collection accept its label: what is written
  is a subsequence of the stream, with \<open>reuse_matches\<close> exactly the blocks accepted
  by some matcher, each once, and without it at most one block for each matcher. The
  matchers are tried in order up to the first that accepts the label.
\<close>

theorem MultipleLabelSearch_scan_writes_once:
  "subseq (written (MultipleLabelSearch_scan matches reuse_matches reader)) reader \<and>
   (reuse_matches \<longrightarrow>
      written (MultipleLabelSearch_scan matches reuse_matches reader) =
        filter (\<lambda>b. \<exists>m \<in> set matches. m (fst b)) reader) \<and>
   (\<not> reuse_matches \<longrightarrow>
      length (written (MultipleLabelSearch_scan matches reuse_matches reader)) \<le> length matches) \<and>
   (first_match (enumerate 0 matches) header = Some idx \<longleftrightarrow>
      idx < length matches \<and> (matches ! idx) header \<and> (\<forall>j < idx. \<not> (matches ! j) header))"
proof (intro conjI impI)
  from MultipleLabelSearch_loop_subseq [of reuse_matches reader matches
      "replicate (length matches) False" "[]"]
  show "subseq (written (MultipleLabelSearch_scan matches reuse_matches reader)) reader"
    by (auto simp: MultipleLabelSearch_scan_def)
next
  assume reuse_matches
  then show "written (MultipleLabelSearch_scan matches reuse_matches reader) =
      filter (\<lambda>b. \<exists>m \<in> set matches. m (fst b)) reader"
    by (simp add: MultipleLabelSearch_scan_def MultipleLabelSearch_loop_reuse_written)
next
  assume "\<not> reuse_matches"
  with MultipleLabelSearch_loop_once_bound [of reader matches "replicate (length matches) False" "[]"]
  show "length (written (MultipleLabelSearch_scan matches reuse_matches reader)) \<le> length matches"
    by (simp add: MultipleLabelSearch_scan_def)
next
  show "first_match (enumerate 0 matches) header = Some idx \<longleftrightarrow>
      idx < length matches \<and> (matches ! idx) header \<and> (\<forall>j < idx. \<not> (matches ! j) header)"
    by (rule first_match_0)
qed

lemma compile_a: "RegularExpressionMatch py_re ''a'' =
    Inr (\<lambda>value. frag_search (Cat (Lit CHR ''a'') Eps) value)"
  by (simp add: RegularExpressionMatch_def py_re_def frag_compile_def close_frame_def)

lemma compile_ab: "RegularExpressionMatch py_re ''ab'' =
    Inr (\<lambda>value. frag_search (Cat (Lit CHR ''a'') (Cat (Lit CHR ''b'') Eps)) value)"
  by (simp add: RegularExpressionMatch_def py_re_def frag_compile_def close_frame_def)

theorem MultipleLabelSearch_scan_writes_once_witness:
  "written (MultipleLabelSearch_scan
      [projr (RegularExpressionMatch py_re ''a''), projr (RegularExpressionMatch py_re ''ab'')]
      True [(''ab'', [''ACGT'']), (''b'', [''TT'']), (''ca'', [])]) =
     [(''ab'', [''ACGT'']), (''ca'', [])] \<and>
   projr (RegularExpressionMatch py_re ''a'') ''ab'' \<and>
   projr (RegularExpressionMatch py_re ''ab'') ''ab'' \<and>
   first_match (enumerate 0
      [projr (RegularExpressionMatch py_re ''a''), projr (RegularExpressionMatch py_re ''ab'')])
      ''ab'' = Some 0"
  using MultipleLabelSearch_scan_writes_once [of
      "[projr (RegularExpressionMatch py_re ''a''), projr (RegularExpressionMatch py_re ''ab'')]"
      True "[(''ab'', [''ACGT'']), (''b'', [''TT'']), (''ca'', [])]" "''ab''" 0]
  by (simp add: compile_a compile_ab frag_search_def)

text \<open>
  Claim C2. Multi-Label Search is to return true iff every requested target was matched
  at least once. A block whose label is accepted by two targets is counted for the first
  of them only: with the patterns \<open>a\<close> and \<open>ab\<close> (in either order) and a stream
  holding the single block \<open>ab\<close>, both patterns match the block, the block is
  written, and the result is false; with the two patterns read from a file, \<open>main\<close>
  prints the block and reports missing blocks, whichever of the two orders the iteration
  of the label set gives.
\<close>

theorem MultipleLabelSearch_overlap_missed:
  "\<not> isl (RegularExpressionMatch py_re ''a'') \<and>
   \<not> isl (RegularExpressionMatch py_re ''ab'') \<and>
   projr (RegularExpressionMatch py_re ''a'') ''ab'' \<and>
   projr (RegularExpressionMatch py_re ''ab'') ''ab'' \<and>
   MultipleLabelSearch_scan
     [projr (RegularExpressionMatch py_re ''a''), projr (RegularExpressionMatch py_re ''ab'')]
     True [(''ab'', [''ACGT''])] =
     \<lparr>written = [(''ab'', [''ACGT''])], unread = [], result = False\<rparr> \<and>
   MultipleLabelSearch_scan
     [projr (RegularExpressionMatch py_re ''ab''), projr (RegularExpressionMatch py_re ''a'')]
     True [(''ab'', [''ACGT''])] =
     \<lparr>written = [(''ab'', [''ACGT''])], unread = [], result = False\<rparr> \<and>
   main (example_env (\<lambda>name. if name = ''labels.txt''
           then Some [''a'' @ [CHR 0x0A], ''ab'' @ [CHR 0x0A]] else None))
     (default_options\<lparr>regexp := True, from_file := True\<rparr>) [''labels.txt'']
     [(''ab'', [''ACGT''])] =
     \<lparr>stdout = ''>ab'' @ [CHR 0x0A] @ ''ACGT'' @ [CHR 0x0A],
      status = Some (Exit ''Some FASTA blocks are missing.'' [])\<rparr> \<and>
   main ((example_env (\<lambda>name. if name = ''labels.txt''
           then Some [''a'' @ [CHR 0x0A], ''ab'' @ [CHR 0x0A]] else None))\<lparr>set_order := rev\<rparr>)
     (default_options\<lparr>regexp := True, from_file := True\<rparr>) [''labels.txt'']
     [(''ab'', [''ACGT''])] =
     \<lparr>stdout = ''>ab'' @ [CHR 0x0A] @ ''ACGT'' @ [CHR 0x0A],
      status = Some (Exit ''Some FASTA blocks are missing.'' [])\<rparr>"
  by (simp add: main_def select_search_def example_env_def default_options_def is_range_def
      load_labels_def rstrip_newline_def compile_a compile_ab frag_search_def
      MultipleLabelSearch_scan_def identity_filter_def emit_def FastaWriter_write_def)

section \<open>Properties of the matchers\<close>

text \<open>
  Cutting at the position \<open>sep_rx\<close> finds is cutting before the first space or tab.
\<close>

lemma sep_rx_search_takeWhile:
  "(case sep_rx_search value of Some start \<Rightarrow> take start value | None \<Rightarrow> value) =
     truncate_label value"
  by (induction "value") (auto simp: truncate_label_def split: option.splits)

lemma id_filter_truncate: "id_filter m value = m (truncate_label value)"
proof -
  have "id_filter m value =
        m (case sep_rx_search value of Some start \<Rightarrow> take start value | None \<Rightarrow> value)"
    by (simp add: id_filter_def split: option.splits)
  then show ?thesis by (simp only: sep_rx_search_takeWhile)
qed

text \<open>
  Claim C7. The id-only adapter gives the wrapped matcher the label cut before its first
  space or tab (the whole label when it has neither). The cut is for matching only: the
  searches write the blocks of the stream as they are, with the full header. So
  \<open>ExactMatch "seq1"\<close> rejects the label \<open>seq1 extra info\<close> and accepts it
  through the adapter.
\<close>

theorem id_filter_correct:
  "id_filter m value = m (truncate_label value) \<and>
   \<not> ExactMatch ''seq1'' ''seq1 extra info'' \<and>
   id_filter (ExactMatch ''seq1'') ''seq1 extra info'' \<and>
   written (SingleLabelSearch_scan (id_filter m) True reader) =
     filter (\<lambda>b. m (truncate_label (fst b))) reader \<and>
   written (SingleLabelSearch_scan (id_filter m) False reader) =
     take 1 (filter (\<lambda>b. m (truncate_label (fst b))) reader) \<and>
   written (MultipleLabelSearch_scan (map id_filter ms) True reader) =
     filter (\<lambda>b. \<exists>m \<in> set ms. m (truncate_label (fst b))) reader \<and>
   subseq (written (MultipleLabelSearch_scan (map id_filter ms) reuse_matches reader)) reader"
proof (intro conjI)
  show "id_filter m value = m (truncate_label value)" by (rule id_filter_truncate)
  show "\<not> ExactMatch ''seq1'' ''seq1 extra info''" by (simp add: ExactMatch_def)
  show "id_filter (ExactMatch ''seq1'') ''seq1 extra info''"
    by (simp add: id_filter_truncate truncate_label_def ExactMatch_def)
  show "written (SingleLabelSearch_scan (id_filter m) True reader) =
     filter (\<lambda>b. m (truncate_label (fst b))) reader"
    by (simp add: SingleLabelSearch_scan_def SingleLabelSearch_loop_reuse id_filter_truncate)
  show "written (SingleLabelSearch_scan (id_filter m) False reader) =
     take 1 (filter (\<lambda>b. m (truncate_label (fst b))) reader)"
    by (simp add: SingleLabelSearch_scan_def SingleLabelSearch_loop_once id_filter_truncate)
  show "written (MultipleLabelSearch_scan (map id_filter ms) True reader) =
     filter (\<lambda>b. \<exists>m \<in> set ms. m (truncate_label (fst b))) reader"
    by (simp add: MultipleLabelSearch_scan_def MultipleLabelSearch_loop_reuse_written
        id_filter_truncate)
  from MultipleLabelSearch_loop_subseq [of reuse_matches reader "map id_filter ms"
      "replicate (length (map id_filter ms)) False" "[]"]
  show "subseq (written (MultipleLabelSearch_scan (map id_filter ms) reuse_matches reader)) reader"
    by (auto simp: MultipleLabelSearch_scan_def)
qed

theorem id_filter_correct_witness:
  "SingleLabelSearch_scan (id_filter (ExactMatch ''seq1'')) False
     [(''seq0 first'', [''AA'']), (''seq1 extra info'', [''ACGT''])] =
     \<lparr>written = [(''seq1 extra info'', [''ACGT''])], unread = [], result = True\<rparr> \<and>
   SingleLabelSearch_scan (ExactMatch ''seq1'') False
     [(''seq0 first'', [''AA'']), (''seq1 extra info'', [''ACGT''])] =
     \<lparr>written = [], unread = [], result = False\<rparr> \<and>
   emit True [(''seq1 extra info'', [''ACGT''])] =
     ''>seq1 extra info'' @ [CHR 0x0A] @ ''ACGT'' @ [CHR 0x0A] \<and>
   truncate_label ''seq1 extra info'' = ''seq1''"
  using id_filter_correct [of "ExactMatch ''seq1''" "''seq1 extra info''"
      "[(''seq0 first'', [''AA'']), (''seq1 extra info'', [''ACGT''])]" "[]" False]
  by (simp add: SingleLabelSearch_scan_def ExactMatch_def truncate_label_def emit_def
      FastaWriter_write_def id_filter_truncate)

section \<open>Properties of the regular expression fragment\<close>

text \<open>
  Plain characters are read as literals, so the wrapped pattern of a plain \<open>p\<close>
  compiles to \<open>wrapped p\<close>; a search with it succeeds iff \<open>p\<close> occurs between word
  boundaries.
\<close>

lemma parse_plain:
  "plain p \<Longrightarrow>
   parse (p @ rest) (alts, items) stack = parse rest (alts, items @ map Lit p) stack"
proof (induction p arbitrary: items)
  case Nil
  then show ?case by simp
next
  case (Cons c p)
  from Cons.prems have c: "c \<noteq> CHR ''(''" "c \<noteq> CHR '')''" "c \<noteq> CHR ''|''" "c \<noteq> CHR ''^''"
    "c \<noteq> CHR ''$''" "c \<noteq> CHR ''.''" "c \<noteq> CHR 0x5C" "c \<notin> set ''*+?{[''"
    and p: "plain p"
    by (auto simp: plain_def)
  from Cons.IH [OF p, of "items @ [Lit c]"] c show ?case by simp
qed

lemma compile_wrapped:
  assumes "plain p"
  shows "frag_compile (''(^|'' @ [CHR 0x5C] @ ''W)'' @ p @ ''('' @ [CHR 0x5C] @ ''W|$)'') =
         Inr (wrapped p)"
proof -
  have "parse (''(^|'' @ [CHR 0x5C] @ ''W)'' @ p @ ''('' @ [CHR 0x5C] @ ''W|$)'') ([], []) [] =
        parse (p @ ''('' @ [CHR 0x5C] @ ''W|$)'')
          ([], [Alt (Cat Bol Eps) (Cat NonWordChar Eps)]) []"
    by (simp add: close_frame_def)
  also have "\<dots> = parse (''('' @ [CHR 0x5C] @ ''W|$)'')
          ([], [Alt (Cat Bol Eps) (Cat NonWordChar Eps)] @ map Lit p) []"
    by (rule parse_plain [OF assms])
  also have "\<dots> = Inr (wrapped p)"
    by (simp add: close_frame_def wrapped_def)
  finally show ?thesis by (simp only: frag_compile_def)
qed

lemma lits_step:
  "rx_step (seq_rx (map Lit p @ rs)) (b, s) \<noteq> [] \<longleftrightarrow>
     (\<exists>post. s = p @ post \<and> rx_step (seq_rx rs) (b \<and> p = [], post) \<noteq> [])"
proof (induction p arbitrary: b s)
  case Nil
  then show ?case by simp
next
  case (Cons c p)
  show ?case
  proof (cases s)
    case Nil
    then show ?thesis by simp
  next
    case (Cons x xs)
    show ?thesis
    proof (cases "x = c")
      case True
      with Cons Cons.IH [of False xs] show ?thesis by simp
    next
      case False
      with Cons show ?thesis by simp
    qed
  qed
qed

lemma newline_not_word: "\<not> is_word (CHR 0x0A)"
  by (simp add: is_word_def is_alpha_def is_digit_def)

lemma closing_step:
  "rx_step (seq_rx [Alt (Cat NonWordChar Eps) (Cat Eol Eps)]) (b, post) \<noteq> [] \<longleftrightarrow>
     boundary_after post"
proof (cases post)
  case Nil
  then show ?thesis by (simp add: boundary_after_def)
next
  case (Cons x xs)
  then show ?thesis using newline_not_word by (auto simp: boundary_after_def)
qed

lemma wrapped_step:
  "rx_step (wrapped p) (b, s) \<noteq> [] \<longleftrightarrow>
     (b \<and> (\<exists>post. s = p @ post \<and> boundary_after post)) \<or>
     (\<exists>x post. s = x # p @ post \<and> \<not> is_word x \<and> boundary_after post)"
proof -
  let ?tail = "seq_rx (map Lit p @ [Alt (Cat NonWordChar Eps) (Cat Eol Eps)])"
  have tail: "rx_step ?tail (c, t) \<noteq> [] \<longleftrightarrow> (\<exists>post. t = p @ post \<and> boundary_after post)"
    for c t
    by (simp only: lits_step closing_step)
  have w: "wrapped p = Cat (Alt (Cat Bol Eps) (Cat NonWordChar Eps)) ?tail"
    by (simp add: wrapped_def)
  show ?thesis
  proof (cases s)
    case Nil
    show ?thesis unfolding w Nil using tail [of b "[]"] by (cases b) simp_all
  next
    case (Cons x xs)
    show ?thesis
      unfolding w Cons using tail [of b "x # xs"] tail [of False xs]
      by (cases b; cases "is_word x") simp_all
  qed
qed

lemma search_from_split:
  "search_from r b s \<longleftrightarrow>
     (\<exists>pre suf. s = pre @ suf \<and> rx_step r (b \<and> pre = [], suf) \<noteq> [])"
proof (induction s arbitrary: b)
  case Nil
  then show ?case by simp
next
  case (Cons x xs)
  have "(\<exists>pre suf. x # xs = pre @ suf \<and> rx_step r (b \<and> pre = [], suf) \<noteq> []) \<longleftrightarrow>
        rx_step r (b, x # xs) \<noteq> [] \<or>
        (\<exists>pre suf. xs = pre @ suf \<and> rx_step r (False, suf) \<noteq> [])"
    (is "?L \<longleftrightarrow> ?A \<or> ?B")
  proof
    assume ?L
    then obtain pre suf where ps: "x # xs = pre @ suf" "rx_step r (b \<and> pre = [], suf) \<noteq> []"
      by blast
    show "?A \<or> ?B"
    proof (cases pre)
      case Nil
      with ps show ?thesis by simp
    next
      case (Cons y ys)
      with ps have "xs = ys @ suf" "rx_step r (False, suf) \<noteq> []" by simp_all
      then show ?thesis by blast
    qed
  next
    assume "?A \<or> ?B"
    then show ?L
    proof
      assume ?A
      then have "x # xs = [] @ (x # xs) \<and> rx_step r (b \<and> ([]::string) = [], x # xs) \<noteq> []"
        by simp
      then show ?L by blast
    next
      assume ?B
      then obtain pre suf where "xs = pre @ suf" "rx_step r (False, suf) \<noteq> []" by blast
      then have "x # xs = (x # pre) @ suf \<and> rx_step r (b \<and> x # pre = [], suf) \<noteq> []"
        by simp
      then show ?L by blast
    qed
  qed
  with Cons.IH [of False] show ?case by simp
qed

lemma frag_search_wrapped: "frag_search (wrapped p) label \<longleftrightarrow> word_bounded p label"
proof
  assume "frag_search (wrapped p) label"
  then obtain pre suf where l: "label = pre @ suf"
    and st: "rx_step (wrapped p) (pre = [], suf) \<noteq> []"
    by (auto simp: frag_search_def search_from_split)
  from st consider
      (start) post where "pre = []" "suf = p @ post" "boundary_after post"
    | (inner) x post where "suf = x # p @ post" "\<not> is_word x" "boundary_after post"
    by (auto simp: wrapped_step)
  then show "word_bounded p label"
  proof cases
    case start
    with l have "label = [] @ p @ post" by simp
    with start(3) show ?thesis unfolding word_bounded_def boundary_after_def by blast
  next
    case inner
    with l have "label = (pre @ [x]) @ p @ post" by simp
    moreover from inner(2) have "\<not> is_word (last (pre @ [x]))" by simp
    ultimately show ?thesis using inner(3) unfolding word_bounded_def boundary_after_def by blast
  qed
next
  assume "word_bounded p label"
  then obtain pre post where l: "label = pre @ p @ post"
    and before: "pre = [] \<or> \<not> is_word (last pre)" and after: "boundary_after post"
    by (auto simp: word_bounded_def boundary_after_def)
  show "frag_search (wrapped p) label"
  proof (cases "pre = []")
    case True
    with l after have "label = [] @ (p @ post) \<and>
        rx_step (wrapped p) (True \<and> ([]::string) = [], p @ post) \<noteq> []"
      by (simp add: wrapped_step)
    then show ?thesis unfolding frag_search_def search_from_split by blast
  next
    case False
    then obtain ys x where pre: "pre = ys @ [x]" by (cases pre rule: rev_cases) auto
    with before have "\<not> is_word x" by simp
    with l pre after have "label = ys @ (x # p @ post) \<and>
        rx_step (wrapped p) (True \<and> ys = [], x # p @ post) \<noteq> []"
      by (simp add: wrapped_step)
    then show ?thesis unfolding frag_search_def search_from_split by blast
  qed
qed

lemma WordRegularExpressionMatch_plain:
  assumes "plain p"
  shows "WordRegularExpressionMatch py_re p = Inr (\<lambda>value. frag_search (wrapped p) value)"
  using compile_wrapped [OF assms]
  by (simp add: WordRegularExpressionMatch_def RegularExpressionMatch_def py_re_def)

text \<open>
  For a pattern of literal characters the wrapped pattern does anchor the match: the
  pattern is accepted iff it occurs in the label with, on each side, an end of the label
  or a character that is no letter, digit or underscore. So \<open>cat\<close> matches the label
  \<open>the cat sat\<close> and does not match \<open>category\<close>.
\<close>

lemma WordRegularExpressionMatch_plain_anchored:
  assumes "plain p"
  shows "\<exists>m. WordRegularExpressionMatch py_re p = Inr m \<and>
           (\<forall>label. m label \<longleftrightarrow> word_bounded p label)"
  using assms by (simp add: WordRegularExpressionMatch_plain frag_search_wrapped)

lemma WordRegularExpressionMatch_cat:
  "\<exists>m. WordRegularExpressionMatch py_re ''cat'' = Inr m \<and>
       m ''the cat sat'' \<and> \<not> m ''category''"
  by (simp add: WordRegularExpressionMatch_def RegularExpressionMatch_def py_re_def
      frag_compile_def frag_search_def close_frame_def is_word_def is_alpha_def is_digit_def)

lemma not_word_bounded_category:
  "\<not> word_bounded ''cat'' ''category'' \<and> \<not> word_bounded ''dog'' ''category''"
proof -
  have "\<not> frag_search (wrapped ''cat'') ''category''"
    by (simp add: frag_search_def wrapped_def is_word_def is_alpha_def is_digit_def)
  moreover have "\<not> frag_search (wrapped ''dog'') ''category''"
    by (simp add: frag_search_def wrapped_def is_word_def is_alpha_def is_digit_def)
  ultimately show ?thesis by (simp only: frag_search_wrapped simp_thms)
qed

text \<open>
  Claim C6. \<open>WordRegularExpressionMatch\<close> is to anchor the match of every pattern to
  word boundaries. The program pastes the pattern between \<open>(^|\W)\<close> and \<open>(\W|$)\<close>
  with no group around it, so with an alternation at the top level of the pattern each
  boundary group attaches to one outer branch only: the pattern \<open>cat|dog\<close> accepts the
  label \<open>category\<close>, in which neither \<open>cat\<close> nor \<open>dog\<close> stands between word
  boundaries and which each of the two patterns alone rejects; \<open>main\<close> under
  \<open>--word-regexp\<close> prints the block and ends normally, while for \<open>cat\<close> alone it
  prints nothing and reports missing blocks.
\<close>

theorem WordRegularExpressionMatch_alternation_unanchored:
  "\<not> isl (WordRegularExpressionMatch py_re ''cat|dog'') \<and>
   projr (WordRegularExpressionMatch py_re ''cat|dog'') ''category'' \<and>
   \<not> word_bounded ''cat'' ''category'' \<and>
   \<not> word_bounded ''dog'' ''category'' \<and>
   \<not> isl (WordRegularExpressionMatch py_re ''cat'') \<and>
   \<not> projr (WordRegularExpressionMatch py_re ''cat'') ''category'' \<and>
   \<not> isl (WordRegularExpressionMatch py_re ''dog'') \<and>
   \<not> projr (WordRegularExpressionMatch py_re ''dog'') ''category'' \<and>
   main (example_env (\<lambda>name. None)) (default_options\<lparr>word_regexp := True\<rparr>) [''cat|dog'']
     [(''category'', [''ACGT''])] =
     \<lparr>stdout = ''>category'' @ [CHR 0x0A] @ ''ACGT'' @ [CHR 0x0A], status = None\<rparr> \<and>
   main (example_env (\<lambda>name. None)) (default_options\<lparr>word_regexp := True\<rparr>) [''cat'']
     [(''category'', [''ACGT''])] =
     \<lparr>stdout = [], status = Some (Exit ''Some FASTA blocks are missing.'' [])\<rparr>"
proof -
  have alt: "WordRegularExpressionMatch py_re ''cat|dog'' =
      Inr (\<lambda>value. frag_search
        (Alt (Cat (Alt (Cat Bol Eps) (Cat NonWordChar Eps))
                (Cat (Lit CHR ''c'') (Cat (Lit CHR ''a'') (Cat (Lit CHR ''t'') Eps))))
             (Cat (Lit CHR ''d'') (Cat (Lit CHR ''o'') (Cat (Lit CHR ''g'')
                (Cat (Alt (Cat NonWordChar Eps) (Cat Eol Eps)) Eps))))) value)"
    by (simp add: WordRegularExpressionMatch_def RegularExpressionMatch_def py_re_def
        frag_compile_def close_frame_def)
  have cat: "WordRegularExpressionMatch py_re ''cat'' =
      Inr (\<lambda>value. frag_search (wrapped ''cat'') value)"
    by (rule WordRegularExpressionMatch_plain) (simp add: plain_def)
  have dog: "WordRegularExpressionMatch py_re ''dog'' =
      Inr (\<lambda>value. frag_search (wrapped ''dog'') value)"
    by (rule WordRegularExpressionMatch_plain) (simp add: plain_def)
  have yes: "projr (WordRegularExpressionMatch py_re ''cat|dog'') ''category''"
    by (simp add: alt frag_search_def is_word_def is_alpha_def is_digit_def)
  have no_cat: "\<not> projr (WordRegularExpressionMatch py_re ''cat'') ''category''"
    by (simp add: cat frag_search_def wrapped_def is_word_def is_alpha_def is_digit_def)
  have no_dog: "\<not> projr (WordRegularExpressionMatch py_re ''dog'') ''category''"
    by (simp add: dog frag_search_def wrapped_def is_word_def is_alpha_def is_digit_def)
  have run_alt: "main (example_env (\<lambda>name. None)) (default_options\<lparr>word_regexp := True\<rparr>)
      [''cat|dog''] [(''category'', [''ACGT''])] =
      \<lparr>stdout = ''>category'' @ [CHR 0x0A] @ ''ACGT'' @ [CHR 0x0A], status = None\<rparr>"
    using yes
    by (simp add: main_def select_search_def example_env_def default_options_def is_range_def
        alt identity_filter_def SingleLabelSearch_scan_def emit_def FastaWriter_write_def)
  have run_cat: "main (example_env (\<lambda>name. None)) (default_options\<lparr>word_regexp := True\<rparr>)
      [''cat''] [(''category'', [''ACGT''])] =
      \<lparr>stdout = [], status = Some (Exit ''Some FASTA blocks are missing.'' [])\<rparr>"
    using no_cat
    by (simp add: main_def select_search_def example_env_def default_options_def is_range_def
        cat identity_filter_def SingleLabelSearch_scan_def emit_def)
  from yes no_cat no_dog run_alt run_cat not_word_bounded_category show ?thesis
    by (simp add: alt cat dog)
qed

section \<open>Properties of load\_labels\<close>

lemma load_labels_loop_ok:
  "distinct (labels @ map strip fd) \<Longrightarrow>
   load_labels_loop strip filename fd labels = Inr (labels @ map strip fd)"
proof (induction fd arbitrary: labels)
  case Nil
  then show ?case by simp
next
  case (Cons line fd)
  from Cons.prems have new: "strip line \<notin> set labels" by auto
  from Cons.prems have "distinct ((labels @ [strip line]) @ map strip fd)" by auto
  from Cons.IH [OF this] new show ?case by (simp add: Let_def)
qed

lemma load_labels_loop_dup:
  "distinct labels \<Longrightarrow> \<not> distinct (labels @ map strip fd) \<Longrightarrow>
   \<exists>label. load_labels_loop strip filename fd labels =
       Inl (Exit ''Duplicated label '%s' in file %s'' [Str label, Str filename]) \<and>
     1 < count_list (labels @ map strip fd) label"
proof (induction fd arbitrary: labels)
  case Nil
  then show ?case by simp
next
  case (Cons line fd)
  show ?case
  proof (cases "strip line \<in> set labels")
    case True
    then have "count_list labels (strip line) \<noteq> 0" by (simp add: count_list_0_iff)
    then have "1 < count_list (labels @ map strip (line # fd)) (strip line)" by simp
    with True show ?thesis by (simp add: Let_def)
  next
    case False
    with Cons.prems have d: "distinct (labels @ [strip line])"
      and nd: "\<not> distinct ((labels @ [strip line]) @ map strip fd)" by auto
    from Cons.IH [OF d nd] False show ?thesis by (simp add: Let_def)
  qed
qed

text \<open>
  Claim C8, as the program has it. Loading labels yields the labels of the lines of the
  file, in a collection that is not empty and holds each label once; the labels
  themselves are whatever \<open>safe_rstrip\<close> leaves of a line and may be empty. A label
  that occurs twice, a file with no line and a file that cannot be read end the process
  with a message, and \<open>main\<close> writes nothing in that case: the scan has not begun.
\<close>

theorem load_labels_correct:
  "(fs filename = None \<longrightarrow>
      load_labels strip fs filename = Inl (Exit ''Error reading from file %s'' [Str filename])) \<and>
   (fs filename = Some fd \<longrightarrow>
      (fd \<noteq> [] \<and> distinct (map strip fd) \<longrightarrow>
         load_labels strip fs filename = Inr (map strip fd)) \<and>
      (\<not> distinct (map strip fd) \<longrightarrow>
         (\<exists>label. load_labels strip fs filename =
            Inl (Exit ''Duplicated label '%s' in file %s'' [Str label, Str filename]) \<and>
            1 < count_list (map strip fd) label)) \<and>
      (fd = [] \<longrightarrow>
         load_labels strip fs filename = Inl (Exit ''No label in file %s'' [Str filename]))) \<and>
   (load_labels strip fs filename = Inr labels \<longrightarrow> labels \<noteq> [] \<and> distinct labels) \<and>
   (from_file opts \<and> \<not> (regexp opts \<and> word_regexp opts) \<and> \<not> is_range filename \<and>
    load_labels (safe_rstrip ev) (files ev) filename = Inl e \<longrightarrow>
      main ev opts [filename] stdin = \<lparr>stdout = [], status = Some e\<rparr>)"
proof (intro conjI impI)
  assume "fs filename = None"
  then show "load_labels strip fs filename =
      Inl (Exit ''Error reading from file %s'' [Str filename])"
    by (simp add: load_labels_def)
next
  assume f: "fs filename = Some fd" and "fd \<noteq> [] \<and> distinct (map strip fd)"
  then have "fd \<noteq> []" "distinct ([] @ map strip fd)" by simp_all
  with f load_labels_loop_ok [of "[]" strip fd filename]
  show "load_labels strip fs filename = Inr (map strip fd)"
    by (simp add: load_labels_def)
next
  assume f: "fs filename = Some fd" and "\<not> distinct (map strip fd)"
  then have "\<not> distinct ([] @ map strip fd)" by simp
  from load_labels_loop_dup [OF _ this, of filename] obtain label where
    "load_labels_loop strip filename fd [] =
       Inl (Exit ''Duplicated label '%s' in file %s'' [Str label, Str filename])"
    "1 < count_list (map strip fd) label" by auto
  with f show "\<exists>label. load_labels strip fs filename =
      Inl (Exit ''Duplicated label '%s' in file %s'' [Str label, Str filename]) \<and>
      1 < count_list (map strip fd) label"
    by (auto simp: load_labels_def)
next
  assume "fs filename = Some fd" and "fd = []"
  then show "load_labels strip fs filename = Inl (Exit ''No label in file %s'' [Str filename])"
    by (simp add: load_labels_def)
next
  assume r: "load_labels strip fs filename = Inr labels"
  then obtain fd where f: "fs filename = Some fd"
    by (cases "fs filename") (simp_all add: load_labels_def)
  have d: "distinct (map strip fd)"
  proof (rule ccontr)
    assume "\<not> distinct (map strip fd)"
    then have "\<not> distinct ([] @ map strip fd)" by simp
    from load_labels_loop_dup [OF _ this, of filename] obtain label where
      "load_labels_loop strip filename fd [] =
         Inl (Exit ''Duplicated label '%s' in file %s'' [Str label, Str filename])" by auto
    with f r show False by (simp add: load_labels_def)
  qed
  then have "load_labels_loop strip filename fd [] = Inr (map strip fd)"
    using load_labels_loop_ok [of "[]" strip fd filename] by simp
  with f r show "labels \<noteq> []" and "distinct labels"
    using d by (auto simp: load_labels_def split: if_splits)
next
  assume "from_file opts \<and> \<not> (regexp opts \<and> word_regexp opts) \<and> \<not> is_range filename \<and>
    load_labels (safe_rstrip ev) (files ev) filename = Inl e"
  then show "main ev opts [filename] stdin = \<lparr>stdout = [], status = Some e\<rparr>"
    by (auto simp: main_def select_search_def Let_def)
qed

theorem load_labels_correct_witness:
  "load_labels rstrip_newline
     (\<lambda>name. if name = ''labels.txt'' then Some [''a'' @ [CHR 0x0A], ''b'' @ [CHR 0x0A]] else None)
     ''labels.txt'' = Inr [''a'', ''b''] \<and>
   load_labels rstrip_newline
     (\<lambda>name. if name = ''labels.txt''
        then Some [''a'' @ [CHR 0x0A], ''b'' @ [CHR 0x0A], ''a''] else None)
     ''labels.txt'' = Inl (Exit ''Duplicated label '%s' in file %s'' [Str ''a'', Str ''labels.txt'']) \<and>
   load_labels rstrip_newline (\<lambda>name. if name = ''labels.txt'' then Some [] else None)
     ''labels.txt'' = Inl (Exit ''No label in file %s'' [Str ''labels.txt'']) \<and>
   load_labels rstrip_newline (\<lambda>name. if name = ''labels.txt'' then Some [] else None)
     ''other.txt'' = Inl (Exit ''Error reading from file %s'' [Str ''other.txt'']) \<and>
   main (example_env (\<lambda>name. if name = ''labels.txt'' then Some [] else None))
     (default_options\<lparr>from_file := True\<rparr>) [''labels.txt''] [(''a'', [''AA''])] =
     \<lparr>stdout = [], status = Some (Exit ''No label in file %s'' [Str ''labels.txt''])\<rparr>"
proof -
  let ?two = "\<lambda>name. if name = ''labels.txt''
      then Some [''a'' @ [CHR 0x0A], ''b'' @ [CHR 0x0A]] else None"
  let ?twice = "\<lambda>name. if name = ''labels.txt''
      then Some [''a'' @ [CHR 0x0A], ''b'' @ [CHR 0x0A], ''a''] else None"
  let ?none = "\<lambda>name. if name = ''labels.txt'' then Some ([] :: string list) else None"
  note unreadable = load_labels_correct [THEN conjunct1, rule_format]
  note ok = load_labels_correct [THEN conjunct2, THEN conjunct1, rule_format,
      THEN conjunct1, rule_format]
  note dup = load_labels_correct [THEN conjunct2, THEN conjunct1, rule_format,
      THEN conjunct2, THEN conjunct1, rule_format]
  note nolabel = load_labels_correct [THEN conjunct2, THEN conjunct1, rule_format,
      THEN conjunct2, THEN conjunct2, rule_format]
  note before = load_labels_correct [THEN conjunct2, THEN conjunct2, THEN conjunct2, rule_format]
  have a: "load_labels rstrip_newline ?two ''labels.txt'' = Inr [''a'', ''b'']"
    using ok [of ?two "''labels.txt''" "[''a'' @ [CHR 0x0A], ''b'' @ [CHR 0x0A]]" rstrip_newline]
    by (simp add: rstrip_newline_def)
  have "\<exists>label. load_labels rstrip_newline ?twice ''labels.txt'' =
      Inl (Exit ''Duplicated label '%s' in file %s'' [Str label, Str ''labels.txt''])"
    using dup [of ?twice "''labels.txt''" "[''a'' @ [CHR 0x0A], ''b'' @ [CHR 0x0A], ''a'']"
        rstrip_newline]
    by (auto simp: rstrip_newline_def)
  then have b: "load_labels rstrip_newline ?twice ''labels.txt'' =
      Inl (Exit ''Duplicated label '%s' in file %s'' [Str ''a'', Str ''labels.txt''])"
    by (simp add: load_labels_def rstrip_newline_def)
  have c: "load_labels rstrip_newline ?none ''labels.txt'' =
      Inl (Exit ''No label in file %s'' [Str ''labels.txt''])"
    using nolabel [of ?none "''labels.txt''" "[]" rstrip_newline] by simp
  have d: "load_labels rstrip_newline ?none ''other.txt'' =
      Inl (Exit ''Error reading from file %s'' [Str ''other.txt''])"
    using unreadable [of ?none "''other.txt''" rstrip_newline] by simp
  have e: "main (example_env ?none) (default_options\<lparr>from_file := True\<rparr>) [''labels.txt'']
      [(''a'', [''AA''])] =
      \<lparr>stdout = [], status = Some (Exit ''No label in file %s'' [Str ''labels.txt''])\<rparr>"
    using c
    by (intro before) (simp add: example_env_def default_options_def is_range_def)
  from a b c d e show ?thesis by (simp only: simp_thms)
qed

text \<open>
  A blank line between two labels is loaded as the empty label.
\<close>

theorem load_labels_empty_label:
  "load_labels rstrip_newline
     (\<lambda>name. if name = ''labels.txt''
        then Some [''seq1'' @ [CHR 0x0A], [CHR 0x0A], ''seq2'' @ [CHR 0x0A]] else None)
     ''labels.txt'' = Inr [''seq1'', [], ''seq2'']"
  by (simp add: load_labels_def rstrip_newline_def)

section \<open>Properties of main\<close>

text \<open>
  Claim C9. When the options and the argument yield a search, the process ends with a
  failure iff the scan of that search returns false and \<open>--ignore-missing\<close> was not
  given; the failure is the message about missing blocks, and what is printed does not
  depend on the flag.
\<close>

theorem main_exit_status:
  assumes "select_search ev opts args = Inr s"
  shows "main ev opts args stdin =
           \<lparr>stdout = emit (\<not> no_headers opts) (written (scan s stdin)),
            status = (if \<not> result (scan s stdin) \<and> \<not> ignore_missing opts
                      then Some (Exit ''Some FASTA blocks are missing.'' []) else None)\<rparr> \<and>
         (status (main ev opts args stdin) \<noteq> None \<longleftrightarrow>
            \<not> result (scan s stdin) \<and> \<not> ignore_missing opts)"
  using assms by (simp add: main_def Let_def)

lemma select_index_10:
  "select_search (example_env (\<lambda>name. None)) (default_options\<lparr>ignore_missing := im\<rparr>) [''@10''] =
     Inr (IndexSearch 10)"
  by (simp add: select_search_def default_options_def is_range_def parse_range_def py_int_def
      is_space_def is_digit_def digits_value_def)

lemma select_index_1:
  "select_search (example_env (\<lambda>name. None)) default_options [''@1''] = Inr (IndexSearch 1)"
  by (simp add: select_search_def default_options_def is_range_def parse_range_def py_int_def
      is_space_def is_digit_def digits_value_def)

theorem main_exit_status_witness:
  "select_search (example_env (\<lambda>name. None)) default_options [''@10''] = Inr (IndexSearch 10) \<and>
   status (main (example_env (\<lambda>name. None)) default_options [''@10'']
     [(''a'', [''AA'']), (''b'', [''CC''])]) = Some (Exit ''Some FASTA blocks are missing.'' []) \<and>
   status (main (example_env (\<lambda>name. None)) (default_options\<lparr>ignore_missing := True\<rparr>) [''@10'']
     [(''a'', [''AA'']), (''b'', [''CC''])]) = None \<and>
   main (example_env (\<lambda>name. None)) default_options [''@1'']
     [(''a'', [''AA'']), (''b'', [''CC''])] =
     \<lparr>stdout = ''>b'' @ [CHR 0x0A] @ ''CC'' @ [CHR 0x0A], status = None\<rparr>"
proof -
  note miss = main_exit_status [OF select_index_10 [of False], THEN conjunct1,
      of "[(''a'', [''AA'']), (''b'', [''CC''])]"]
  note tolerated = main_exit_status [OF select_index_10 [of True], THEN conjunct1,
      of "[(''a'', [''AA'']), (''b'', [''CC''])]"]
  note hit = main_exit_status [OF select_index_1, THEN conjunct1,
      of "[(''a'', [''AA'']), (''b'', [''CC''])]"]
  have idx10: "\<not> result (IndexSearch_scan 10 [(''a'', [''AA'']), (''b'', [''CC''])])"
    by (simp add: IndexSearch_scan_def)
  have idx1: "IndexSearch_scan 1 [(''a'', [''AA'']), (''b'', [''CC''])] =
      \<lparr>written = [(''b'', [''CC''])], unread = [], result = True\<rparr>"
    by (simp add: IndexSearch_scan_def)
  have d: "default_options\<lparr>ignore_missing := False\<rparr> = default_options"
    by (simp add: default_options_def)
  show ?thesis
    using select_index_10 [of False] miss tolerated hit
    by (simp add: d idx10 idx1 emit_def FastaWriter_write_def)
       (simp add: default_options_def)
qed

end
